theory Spec2Isabelle
  imports Main "HOL-Library.Word" "HOL-Library.Signed_Division"
begin

section \<open>Fixed-step time series (\<^verbatim>\<open>ts/time_series.go\<close>)\<close>

text \<open>
  A shallow embedding of the Go package \<^verbatim>\<open>ts\<close>. The package uses three things of the Go
  standard library and runtime, which are modelled here from their documentation:
  \<^item> \<^verbatim>\<open>time.Duration\<close> is an \<^verbatim>\<open>int64\<close> count of nanoseconds: a 64-bit word, read as two's
    complement by \<open>sint\<close>; multiplication wraps around, division truncates towards zero
    and panics on a zero divisor;
  \<^item> \<^verbatim>\<open>time.Time\<close> is an instant: an integer count of nanoseconds since the zero time
    (January 1, year 1, UTC), which is what \<^verbatim>\<open>IsZero\<close> tests. \<^verbatim>\<open>Add\<close> moves an instant by a
    duration, \<^verbatim>\<open>Sub\<close> is the difference of two instants, saturated to the smallest or
    greatest \<^verbatim>\<open>Duration\<close> when it does not fit;
  \<^item> \<^verbatim>\<open>float64\<close> samples are only stored, copied and handed to the \<^verbatim>\<open>Transform\<close>: a sample is
    its IEEE-754 bit pattern, \<^verbatim>\<open>math.NaN()\<close> is the pattern \<^verbatim>\<open>0x7FF8000000000001\<close> and the
    zero value is the pattern 0.
  Go's \<^verbatim>\<open>int\<close> is taken to be 64 bits wide, so that \<^verbatim>\<open>int(d)\<close> of a duration is \<open>sint d\<close>.
  Memory is not bounded: \<^verbatim>\<open>make\<close> and \<^verbatim>\<open>append\<close> succeed for every length that is not
  negative. \<^verbatim>\<open>String\<close> and the \<^verbatim>\<open>IteratorTimeValue\<close> variant of the iterator are not
  modelled.
\<close>

subsection \<open>Durations and instants\<close>

type_synonym Duration = "64 word"
type_synonym Time = int
type_synonym float64 = "64 word"

definition minDuration :: Duration where
  "minDuration = word_of_int (- (2 ^ 63))"

definition maxDuration :: Duration where
  "maxDuration = word_of_int (2 ^ 63 - 1)"

definition NaN :: float64 where
  "NaN = 0x7FF8000000000001"

definition IsZero :: "Time \<Rightarrow> bool" where
  "IsZero t = (t = 0)"

definition Before :: "Time \<Rightarrow> Time \<Rightarrow> bool" where
  "Before t u = (t < u)"

definition After :: "Time \<Rightarrow> Time \<Rightarrow> bool" where
  "After t u = (u < t)"

definition Equal :: "Time \<Rightarrow> Time \<Rightarrow> bool" where
  "Equal t u = (t = u)"

definition Add :: "Time \<Rightarrow> Duration \<Rightarrow> Time" where
  "Add t d = t + sint d"

definition Sub :: "Time \<Rightarrow> Time \<Rightarrow> Duration" where
  "Sub t u =
     (if t - u < - (2 ^ 63) then minDuration
      else if 2 ^ 63 - 1 < t - u then maxDuration
      else word_of_int (t - u))"

subsection \<open>Panics, errors, slices and the heap\<close>

datatype panic = DivideByZero | IndexOutOfRange | MakesliceLenOutOfRange

text \<open>The three \<^verbatim>\<open>fmt.Errorf\<close> results of the constructor, in the order of the source.\<close>

datatype error = StepZero | StartAfterEnd Time Time | StepZeroStartNotEnd

text \<open>
  Division of durations: a zero divisor panics; otherwise the quotient of the two signed
  values, truncated towards zero (\<open>sdiv\<close> on \<open>int\<close>) and wrapped to 64 bits (only
  the least duration divided by \<open>-1\<close> does not fit).
\<close>

definition Duration_div :: "Duration \<Rightarrow> Duration \<Rightarrow> panic + Duration" where
  "Duration_div a b =
     (if b = 0 then Inl DivideByZero else Inr (word_of_int (sint a sdiv sint b)))"

text \<open>
  A slice is a reference to a backing array together with a length; its capacity is the
  length of the backing array. A \<^verbatim>\<open>*TimeSeries\<close> is the address of a struct. The heap holds
  the structs and the backing arrays, an address being a position in the list; allocation
  adds at the end, and nothing is ever freed.
\<close>

record slice =
  arr :: nat
  len :: nat

record TimeSeries =
  key :: string
  start :: Time
  step :: Duration
  data :: slice
  filler :: float64

record heap =
  objs :: "TimeSeries list"
  arrs :: "float64 list list"

text \<open>\<^verbatim>\<open>make([]float64, n)\<close>: a fresh zeroed array; a negative length panics.\<close>

definition make_slice :: "int \<Rightarrow> heap \<Rightarrow> panic + (slice \<times> heap)" where
  "make_slice n h =
     (if n < 0 then Inl MakesliceLenOutOfRange
      else Inr (\<lparr>arr = length (arrs h), len = nat n\<rparr>,
                h\<lparr>arrs := arrs h @ [replicate (nat n) 0]\<rparr>))"

text \<open>\<^verbatim>\<open>s[i]\<close> and \<^verbatim>\<open>s[i] = v\<close>: the index is checked against the length of the slice.\<close>

definition slice_get :: "slice \<Rightarrow> int \<Rightarrow> heap \<Rightarrow> panic + float64" where
  "slice_get s i h =
     (if 0 \<le> i \<and> i < int (len s) then Inr (arrs h ! arr s ! nat i)
      else Inl IndexOutOfRange)"

definition slice_set :: "slice \<Rightarrow> int \<Rightarrow> float64 \<Rightarrow> heap \<Rightarrow> panic + heap" where
  "slice_set s i v h =
     (if 0 \<le> i \<and> i < int (len s)
      then Inr (h\<lparr>arrs := (arrs h)[arr s := (arrs h ! arr s)[nat i := v]]\<rparr>)
      else Inl IndexOutOfRange)"

text \<open>
  \<^verbatim>\<open>append(s, xs...)\<close>: when the capacity suffices the elements are written into the backing
  array behind the slice; otherwise a new array is allocated that holds the old elements,
  the new ones and some spare capacity. How much spare capacity the runtime adds is not
  fixed by the language: \<open>grow\<close> gives it from the old capacity and the needed length.
\<close>

definition append_slice ::
  "(nat \<Rightarrow> nat \<Rightarrow> nat) \<Rightarrow> slice \<Rightarrow> float64 list \<Rightarrow> heap \<Rightarrow> slice \<times> heap" where
  "append_slice grow s xs h =
     (let a = arrs h ! arr s; n = len s + length xs
      in if n \<le> length a
         then (\<lparr>arr = arr s, len = n\<rparr>,
               h\<lparr>arrs := (arrs h)[arr s := take (len s) a @ xs @ drop n a]\<rparr>)
         else (\<lparr>arr = length (arrs h), len = n\<rparr>,
               h\<lparr>arrs := arrs h @ [take (len s) a @ xs @ replicate (grow (length a) n) 0]\<rparr>))"

text \<open>
  A pointer or a slice of a running program always refers to allocated memory, and a
  slice is never longer than its backing array: \<open>valid h p\<close> says so of the series at
  \<open>p\<close>. \<open>samples h p\<close> is the sequence of samples the series holds.
\<close>

definition valid :: "heap \<Rightarrow> nat \<Rightarrow> bool" where
  "valid h p =
     (p < length (objs h) \<and> arr (data (objs h ! p)) < length (arrs h) \<and>
      len (data (objs h ! p)) \<le> length (arrs h ! arr (data (objs h ! p))))"

definition samples :: "heap \<Rightarrow> nat \<Rightarrow> float64 list" where
  "samples h p = take (len (data (objs h ! p))) (arrs h ! arr (data (objs h ! p)))"

subsection \<open>Construction\<close>

text \<open>
  The loop at the end of \<^verbatim>\<open>NewTimeSeries\<close>, over the indices of \<^verbatim>\<open>ts.data\<close>: the filler in
  every slot when a single value was given, the values positionally otherwise, leaving
  the loop at the first index that has no value.
\<close>

function NewTimeSeries_loop ::
  "bool \<Rightarrow> float64 \<Rightarrow> float64 list \<Rightarrow> slice \<Rightarrow> nat \<Rightarrow> heap \<Rightarrow> panic + heap" where
  "NewTimeSeries_loop singleValue fill values d i h =
     (if i < len d then
        (if singleValue then
           (case slice_set d (int i) fill h of
              Inl e \<Rightarrow> Inl e
            | Inr h1 \<Rightarrow> NewTimeSeries_loop singleValue fill values d (Suc i) h1)
         else if i < length values then
           (case slice_set d (int i) (values ! i) h of
              Inl e \<Rightarrow> Inl e
            | Inr h1 \<Rightarrow> NewTimeSeries_loop singleValue fill values d (Suc i) h1)
         else Inr h)
      else Inr h)"
  by pat_completeness auto
termination
  by (relation "measure (\<lambda>(singleValue, fill, values, d, i, h). len d - i)") auto

declare NewTimeSeries_loop.simps [simp del]

text \<open>
  \<^verbatim>\<open>NewTimeSeries(key, start, end, step, values...)\<close>. \<open>now\<close> is what \<^verbatim>\<open>time.Now()\<close> returns.
  The result is a panic, or the returned pair: an error, or the address of the new series.
  The struct is allocated where the source fills in its data; on the error paths the
  source's struct is unreachable.
\<close>

definition NewTimeSeries ::
  "Time \<Rightarrow> string \<Rightarrow> Time \<Rightarrow> Time \<Rightarrow> Duration \<Rightarrow> float64 list \<Rightarrow> heap
     \<Rightarrow> panic + ((error + nat) \<times> heap)" where
  "NewTimeSeries now k start0 end0 stp values h =
     (if sint stp = 0 then Inr (Inl StepZero, h)
      else
        let singleValue = (length values = 1);
            fill = (if length values = 1 then values ! 0 else NaN);
            st = (if IsZero start0 then now else start0);
            knownEnd = (\<not> IsZero end0);
            en = (if \<not> knownEnd \<and> Before end0 (Add st (of_nat (length values) * stp))
                  then Add st (of_nat (length values) * stp) else end0)
        in if After st en then Inr (Inl (StartAfterEnd st en), h)
           else if \<not> Equal st en \<and> sint stp = 0 then Inr (Inl StepZeroStartNotEnd, h)
           else
             (case Duration_div (Sub en st) stp of
                Inl e \<Rightarrow> Inl e
              | Inr sz \<Rightarrow>
                  (case make_slice (sint sz) h of
                     Inl e \<Rightarrow> Inl e
                   | Inr (d, h1) \<Rightarrow>
                       (case NewTimeSeries_loop singleValue fill values d 0
                               (h1\<lparr>objs := objs h1 @
                                  [\<lparr>key = k, start = st, step = stp, data = d, filler = fill\<rparr>]\<rparr>) of
                          Inl e \<Rightarrow> Inl e
                        | Inr h2 \<Rightarrow> Inr (Inr (length (objs h1)), h2)))))"

definition NewTimeSeriesOfTimeRange ::
  "Time \<Rightarrow> string \<Rightarrow> Time \<Rightarrow> Time \<Rightarrow> Duration \<Rightarrow> float64 \<Rightarrow> heap
     \<Rightarrow> panic + ((error + nat) \<times> heap)" where
  "NewTimeSeriesOfTimeRange now k start0 end0 stp fill h =
     NewTimeSeries now k start0 (Add end0 stp) stp [fill] h"

definition NewTimeSeriesOfLength ::
  "Time \<Rightarrow> string \<Rightarrow> Time \<Rightarrow> Duration \<Rightarrow> int \<Rightarrow> float64 \<Rightarrow> heap
     \<Rightarrow> panic + ((error + nat) \<times> heap)" where
  "NewTimeSeriesOfLength now k start0 stp length0 fill h =
     NewTimeSeries now k start0 (Add start0 (word_of_int length0 * stp)) stp [fill] h"

definition NewTimeSeriesOfData ::
  "Time \<Rightarrow> string \<Rightarrow> Time \<Rightarrow> Duration \<Rightarrow> float64 list \<Rightarrow> heap
     \<Rightarrow> panic + ((error + nat) \<times> heap)" where
  "NewTimeSeriesOfData now k start0 stp values h =
     NewTimeSeries now k start0 0 stp values h"

subsection \<open>Accessors\<close>

definition Key :: "nat \<Rightarrow> heap \<Rightarrow> string" where
  "Key p h = key (objs h ! p)"

definition SetKey :: "nat \<Rightarrow> string \<Rightarrow> heap \<Rightarrow> heap" where
  "SetKey p k h = h\<lparr>objs := (objs h)[p := (objs h ! p)\<lparr>key := k\<rparr>]\<rparr>"

definition Start :: "nat \<Rightarrow> heap \<Rightarrow> Time" where
  "Start p h = start (objs h ! p)"

definition End :: "nat \<Rightarrow> heap \<Rightarrow> Time" where
  "End p h = Add (start (objs h ! p)) (of_nat (len (data (objs h ! p))) * step (objs h ! p))"

definition Step :: "nat \<Rightarrow> heap \<Rightarrow> Duration" where
  "Step p h = step (objs h ! p)"

text \<open>The loop of \<^verbatim>\<open>Data\<close>: \<^verbatim>\<open>for i, v := range ts.data { data[i] = v }\<close>.\<close>

function Data_loop :: "slice \<Rightarrow> slice \<Rightarrow> nat \<Rightarrow> heap \<Rightarrow> panic + heap" where
  "Data_loop src dst i h =
     (if i < len src then
        (case slice_get src (int i) h of
           Inl e \<Rightarrow> Inl e
         | Inr v \<Rightarrow>
             (case slice_set dst (int i) v h of
                Inl e \<Rightarrow> Inl e
              | Inr h1 \<Rightarrow> Data_loop src dst (Suc i) h1))
      else Inr h)"
  by pat_completeness auto
termination
  by (relation "measure (\<lambda>(src, dst, i, h). len src - i)") auto

declare Data_loop.simps [simp del]

definition Data :: "nat \<Rightarrow> heap \<Rightarrow> panic + (slice \<times> heap)" where
  "Data p h =
     (case make_slice (int (len (data (objs h ! p)))) h of
        Inl e \<Rightarrow> Inl e
      | Inr (d, h1) \<Rightarrow>
          (case Data_loop (data (objs h ! p)) d 0 h1 of
             Inl e \<Rightarrow> Inl e
           | Inr h2 \<Rightarrow> Inr (d, h2)))"

definition Copy :: "nat \<Rightarrow> heap \<Rightarrow> panic + (nat \<times> heap)" where
  "Copy p h =
     (case Data p h of
        Inl e \<Rightarrow> Inl e
      | Inr (d, h1) \<Rightarrow>
          Inr (length (objs h1),
               h1\<lparr>objs := objs h1 @
                  [\<lparr>key = key (objs h ! p), start = start (objs h ! p),
                    step = step (objs h ! p), data = d, filler = filler (objs h ! p)\<rparr>]\<rparr>))"

subsection \<open>Range extension\<close>

text \<open>\<^verbatim>\<open>ts.data = append(ts.data, xs...)\<close> on the series at \<open>p\<close>.\<close>

definition append_data :: "(nat \<Rightarrow> nat \<Rightarrow> nat) \<Rightarrow> nat \<Rightarrow> float64 list \<Rightarrow> heap \<Rightarrow> heap" where
  "append_data grow p xs h =
     (case append_slice grow (data (objs h ! p)) xs h of
        (d, h1) \<Rightarrow> h1\<lparr>objs := (objs h1)[p := (objs h1 ! p)\<lparr>data := d\<rparr>]\<rparr>)"

text \<open>
  The loop of \<^verbatim>\<open>ExtendTo\<close> and of \<^verbatim>\<open>ExtendBy\<close>:
  \<^verbatim>\<open>for i := 0; i < int(points); i++ { ts.data = append(ts.data, ts.filler) }\<close>.
\<close>

function Extend_loop :: "(nat \<Rightarrow> nat \<Rightarrow> nat) \<Rightarrow> nat \<Rightarrow> int \<Rightarrow> int \<Rightarrow> heap \<Rightarrow> heap" where
  "Extend_loop grow p points i h =
     (if i < points
      then Extend_loop grow p points (i + 1) (append_data grow p [filler (objs h ! p)] h)
      else h)"
  by pat_completeness auto
termination
  by (relation "measure (\<lambda>(grow, p, points, i, h). nat (points - i))") auto

declare Extend_loop.simps [simp del]

definition ExtendTo :: "(nat \<Rightarrow> nat \<Rightarrow> nat) \<Rightarrow> nat \<Rightarrow> Time \<Rightarrow> heap \<Rightarrow> panic + heap" where
  "ExtendTo grow p t h =
     (let en = End p h
      in if Before t en then Inr h
         else
           (case Duration_div (Sub (Add t (step (objs h ! p))) en) (step (objs h ! p)) of
              Inl e \<Rightarrow> Inl e
            | Inr points \<Rightarrow> Inr (Extend_loop grow p (sint points) 0 h)))"

definition ExtendBy :: "(nat \<Rightarrow> nat \<Rightarrow> nat) \<Rightarrow> nat \<Rightarrow> Duration \<Rightarrow> heap \<Rightarrow> panic + heap" where
  "ExtendBy grow p d h =
     (case Duration_div d (step (objs h ! p)) of
        Inl e \<Rightarrow> Inl e
      | Inr points \<Rightarrow> Inr (Extend_loop grow p (sint points) 0 h))"

definition ExtendWith :: "(nat \<Rightarrow> nat \<Rightarrow> nat) \<Rightarrow> nat \<Rightarrow> float64 list \<Rightarrow> heap \<Rightarrow> heap" where
  "ExtendWith grow p xs h = append_data grow p xs h"

subsection \<open>Indexing and point access\<close>

definition index :: "nat \<Rightarrow> Time \<Rightarrow> heap \<Rightarrow> panic + int" where
  "index p t h =
     (if Before t (start (objs h ! p)) then Inr (- 1)
      else
        let en = Add (start (objs h ! p))
                   (word_of_int (int (len (data (objs h ! p))) - 1) * step (objs h ! p))
        in if After t en then Inr (- 1)
           else
             (case Duration_div (Sub t (start (objs h ! p))) (step (objs h ! p)) of
                Inl e \<Rightarrow> Inl e
              | Inr ix \<Rightarrow> Inr (sint ix)))"

definition GetAt :: "nat \<Rightarrow> Time \<Rightarrow> heap \<Rightarrow> panic + (float64 \<times> bool)" where
  "GetAt p t h =
     (case index p t h of
        Inl e \<Rightarrow> Inl e
      | Inr ix \<Rightarrow>
          if ix = - 1 then Inr (NaN, False)
          else
            (case slice_get (data (objs h ! p)) ix h of
               Inl e \<Rightarrow> Inl e
             | Inr v \<Rightarrow> Inr (v, True)))"

definition SetAt :: "nat \<Rightarrow> Time \<Rightarrow> float64 \<Rightarrow> heap \<Rightarrow> panic + (bool \<times> heap)" where
  "SetAt p t v h =
     (case index p t h of
        Inl e \<Rightarrow> Inl e
      | Inr ix \<Rightarrow>
          if ix = - 1 then Inr (False, h)
          else
            (case slice_set (data (objs h ! p)) ix v h of
               Inl e \<Rightarrow> Inl e
             | Inr h1 \<Rightarrow> Inr (True, h1)))"

definition IsEqualStep :: "nat \<Rightarrow> nat \<Rightarrow> heap \<Rightarrow> bool" where
  "IsEqualStep p q h = (step (objs h ! p) = step (objs h ! q))"

subsection \<open>Transform\<close>

text \<open>
  The \<^verbatim>\<open>Transform\<close> interface: a name and a function on samples, which the specification
  takes to be pure. The method \<^verbatim>\<open>Transform\<close> of the interface is the field \<open>Apply\<close>,
  the name \<open>Transform\<close> being kept for the method of the series.
\<close>

record Transformer =
  Name :: string
  Apply :: "float64 \<Rightarrow> float64"

text \<open>\<^verbatim>\<open>for i, v := range tts.data { tts.data[i] = transform.Transform(v) }\<close>.\<close>

function Transform_loop :: "Transformer \<Rightarrow> slice \<Rightarrow> nat \<Rightarrow> heap \<Rightarrow> panic + heap" where
  "Transform_loop tr d i h =
     (if i < len d then
        (case slice_get d (int i) h of
           Inl e \<Rightarrow> Inl e
         | Inr v \<Rightarrow>
             (case slice_set d (int i) (Apply tr v) h of
                Inl e \<Rightarrow> Inl e
              | Inr h1 \<Rightarrow> Transform_loop tr d (Suc i) h1))
      else Inr h)"
  by pat_completeness auto
termination
  by (relation "measure (\<lambda>(tr, d, i, h). len d - i)") auto

declare Transform_loop.simps [simp del]

definition Transform :: "Transformer \<Rightarrow> nat \<Rightarrow> heap \<Rightarrow> panic + (nat \<times> heap)" where
  "Transform tr p h =
     (case Copy p h of
        Inl e \<Rightarrow> Inl e
      | Inr (q, h1) \<Rightarrow>
          (let h2 = h1\<lparr>objs := (objs h1)[q := (objs h1 ! q)
                         \<lparr>key := Name tr @ ''('' @ key (objs h1 ! p) @ '')''\<rparr>]\<rparr>
           in case Transform_loop tr (data (objs h2 ! q)) 0 h2 of
                Inl e \<Rightarrow> Inl e
              | Inr h3 \<Rightarrow> Inr (q, h3)))"

subsection \<open>Iteration\<close>

record Iterator =
  cursor :: Time
  series :: nat

definition Iterator :: "nat \<Rightarrow> heap \<Rightarrow> Iterator" where
  "Iterator p h = \<lparr>cursor = start (objs h ! p), series = p\<rparr>"

text \<open>\<^verbatim>\<open>Next\<close> returns the pair read at the cursor and the iterator with its cursor advanced.\<close>

definition Next :: "Iterator \<Rightarrow> heap \<Rightarrow> panic + ((float64 \<times> bool) \<times> Iterator)" where
  "Next it h =
     (case GetAt (series it) (cursor it) h of
        Inl e \<Rightarrow> Inl e
      | Inr r \<Rightarrow> Inr (r, it\<lparr>cursor := Add (cursor it) (step (objs h ! series it))\<rparr>))"

definition Last :: "Iterator \<Rightarrow> heap \<Rightarrow> panic + ((float64 \<times> bool) \<times> Iterator)" where
  "Last it h =
     (let c = Add (End (series it) h) (- step (objs h ! series it))
      in case GetAt (series it) c h of
           Inl e \<Rightarrow> Inl e
         | Inr r \<Rightarrow> Inr (r, it\<lparr>cursor := c\<rparr>))"

subsection \<open>Clients and example states\<close>

text \<open>
  A client that calls \<^verbatim>\<open>Next\<close> \<open>k\<close> times in a row on one iterator, and the list of what
  the calls returned.
\<close>

fun Next_calls :: "nat \<Rightarrow> Iterator \<Rightarrow> heap \<Rightarrow> panic + ((float64 \<times> bool) list \<times> Iterator)" where
  "Next_calls 0 it h = Inr ([], it)"
| "Next_calls (Suc k) it h =
     (case Next it h of
        Inl e \<Rightarrow> Inl e
      | Inr (r, it1) \<Rightarrow>
          (case Next_calls k it1 h of
             Inl e \<Rightarrow> Inl e
           | Inr (rs, it2) \<Rightarrow> Inr (r # rs, it2)))"

text \<open>
  Concrete values: the instant 2014-01-01 00:00:00 UTC in nanoseconds since the zero time,
  \<^verbatim>\<open>time.Second\<close>, the bit patterns of the samples 1.0, 2.0, 3.0 and 7.0, the empty
  heap, and a runtime that allocates no spare capacity.
\<close>

definition t2014 :: Time where
  "t2014 = 63524131200000000000"

definition Second :: Duration where
  "Second = 1000000000"

definition f1 :: float64 where "f1 = 0x3FF0000000000000"
definition f2 :: float64 where "f2 = 0x4000000000000000"
definition f3 :: float64 where "f3 = 0x4008000000000000"
definition f7 :: float64 where "f7 = 0x401C000000000000"

definition empty_heap :: heap where
  "empty_heap = \<lparr>objs = [], arrs = []\<rparr>"

definition no_spare :: "nat \<Rightarrow> nat \<Rightarrow> nat" where
  "no_spare c n = 0"

text \<open>A series of the three samples 1.0, 2.0, 3.0, one second apart, from 2014.\<close>

definition seconds_series :: heap where
  "seconds_series =
     \<lparr>objs = [\<lparr>key = ''x'', start = t2014, step = Second,
                data = \<lparr>arr = 0, len = 3\<rparr>, filler = NaN\<rparr>],
      arrs = [[f1, f2, f3]]\<rparr>"

text \<open>
  A series of three samples whose step is \<open>2 ^ 62\<close> nanoseconds (about 146 years): what
  \<^verbatim>\<open>NewTimeSeries("x", t, t.Add(step), step, 7.0)\<close> followed by \<^verbatim>\<open>ExtendWith(1.0, 2.0)\<close>
  builds.
\<close>

definition wide_series :: heap where
  "wide_series =
     \<lparr>objs = [\<lparr>key = ''x'', start = t2014, step = 2 ^ 62,
                data = \<lparr>arr = 1, len = 3\<rparr>, filler = f7\<rparr>],
      arrs = [[f7], [f7, f1, f2]]\<rparr>"

text \<open>The same series before \<^verbatim>\<open>ExtendWith\<close>: one sample, and the step of 146 years.\<close>

definition single_wide_series :: heap where
  "single_wide_series =
     \<lparr>objs = [\<lparr>key = ''x'', start = t2014, step = 2 ^ 62,
                data = \<lparr>arr = 0, len = 1\<rparr>, filler = f7\<rparr>],
      arrs = [[f7]]\<rparr>"

text \<open>
  The empty series with a step of minus one second that
  \<^verbatim>\<open>NewTimeSeries("x", t, t, -time.Second)\<close> builds.
\<close>

definition backward_series :: heap where
  "backward_series =
     \<lparr>objs = [\<lparr>key = ''x'', start = t2014, step = - Second,
                data = \<lparr>arr = 0, len = 0\<rparr>, filler = NaN\<rparr>],
      arrs = [[]]\<rparr>"

text \<open>A transform that flips the sign bit of a sample: negation of a \<^verbatim>\<open>float64\<close>.\<close>

definition negate :: Transformer where
  "negate = \<lparr>Name = ''neg'', Apply = (\<lambda>x. x + 2 ^ 63)\<rparr>"

section \<open>Properties\<close>

subsection \<open>Arithmetic of durations\<close>

text \<open>
  The signed value of a 64-bit word lies between \<open>- 2 ^ 63\<close> and \<open>2 ^ 63 - 1\<close>; a product
  wraps around (\<open>signed_take_bit 63\<close>), a difference of instants saturates, and a quotient
  by a positive step never leaves the range.
\<close>

lemma sint64_of_int: "- (2 ^ 63) \<le> k \<Longrightarrow> k < 2 ^ 63 \<Longrightarrow> sint (word_of_int k :: 64 word) = k"
  by (simp add: sint_sbintrunc' signed_take_bit_int_eq_self)

lemma sint64_lower: "- (2 ^ 63) \<le> sint (d :: 64 word)"
  using sint_ge [of d] by simp

lemma sint64_upper: "sint (d :: 64 word) < 2 ^ 63"
  using sint_lt [of d] by simp

lemma sint64_times: "sint (word_of_int k * d :: 64 word) = signed_take_bit 63 (k * sint d)"
proof -
  have "word_of_int k * d = (word_of_int (k * sint d) :: 64 word)"
    by simp
  then show ?thesis
    by (simp only: sint_sbintrunc') simp
qed

lemma wrap_le_self: "- (2 ^ 63) \<le> k \<Longrightarrow> signed_take_bit 63 k \<le> (k::int)"
proof (cases "k < 2 ^ 63")
  case True
  assume "- (2 ^ 63) \<le> k"
  with True show ?thesis by (simp add: signed_take_bit_int_eq_self)
next
  case False
  have "signed_take_bit 63 k < (2 ^ 63 :: int)"
    by (rule signed_take_bit_int_less_exp)
  with False show ?thesis by linarith
qed

lemma sdiv_nonneg: "0 \<le> a \<Longrightarrow> 0 < b \<Longrightarrow> (a::int) sdiv b = a div b"
  by (simp add: signed_divide_int_def sgn_if)

lemma sdiv_pos_range:
  assumes "0 < (b::int)" "- (2 ^ 63) \<le> a" "a < 2 ^ 63"
  shows "- (2 ^ 63) \<le> a sdiv b \<and> a sdiv b < 2 ^ 63 \<and>
    (0 \<le> a \<longrightarrow> a sdiv b = a div b) \<and> (a \<le> 0 \<longrightarrow> a sdiv b \<le> 0)"
proof (cases "0 \<le> a")
  case True
  with assms have "a sdiv b = a div b" by (simp add: sdiv_nonneg)
  moreover have "0 \<le> a div b" using True assms by (simp add: pos_imp_zdiv_nonneg_iff)
  moreover have "a div b \<le> a div 1" using True assms by (intro zdiv_mono2) simp_all
  ultimately show ?thesis using assms True by auto
next
  case False
  then have e: "a sdiv b = - ((- a) div b)"
    using assms by (simp add: signed_divide_int_def sgn_if)
  have "0 \<le> (- a) div b" using False assms by (simp add: pos_imp_zdiv_nonneg_iff)
  moreover have "(- a) div b \<le> (- a) div 1" using False assms by (intro zdiv_mono2) simp_all
  ultimately show ?thesis using assms False unfolding e by auto
qed

lemma Duration_div_pos:
  assumes "0 \<le> sint a" "0 < sint b"
  shows "Duration_div a b = Inr (word_of_int (sint a div sint b))"
    and "sint (word_of_int (sint a div sint b) :: 64 word) = sint a div sint b"
proof -
  from assms show "Duration_div a b = Inr (word_of_int (sint a div sint b))"
    by (auto simp: Duration_div_def sdiv_nonneg)
  have "0 \<le> sint a div sint b" using assms by (simp add: pos_imp_zdiv_nonneg_iff)
  moreover have "sint a div sint b \<le> sint a div 1"
    using assms by (intro zdiv_mono2) simp_all
  ultimately show "sint (word_of_int (sint a div sint b) :: 64 word) = sint a div sint b"
    using sint64_upper [of a] by (intro sint64_of_int) simp_all
qed

lemma Duration_div_pos_step:
  assumes "0 < sint (s :: 64 word)"
  shows "\<exists>q. Duration_div d s = Inr q \<and> sint q = sint d sdiv sint s"
proof -
  from sdiv_pos_range [OF assms sint64_lower [of d] sint64_upper [of d]]
  have "sint (word_of_int (sint d sdiv sint s) :: 64 word) = sint d sdiv sint s"
    by (intro sint64_of_int) simp_all
  with assms show ?thesis
    by (auto simp: Duration_div_def)
qed

lemma Sub_in_range:
  "- (2 ^ 63) \<le> t - u \<Longrightarrow> t - u < 2 ^ 63 \<Longrightarrow> sint (Sub t u) = t - u"
  unfolding Sub_def using sint64_of_int [of "t - u"] by (simp del: of_int_diff)

lemma Sub_nonneg: "\<not> en < st \<Longrightarrow> 0 \<le> sint (Sub en st)"
proof (cases "en - st < 2 ^ 63")
  case True
  assume "\<not> en < st"
  with True have "sint (Sub en st) = en - st"
    by (intro Sub_in_range) simp_all
  with \<open>\<not> en < st\<close> show ?thesis by simp
next
  case False
  then have "Sub en st = maxDuration" by (simp add: Sub_def)
  then show ?thesis by (simp add: maxDuration_def)
qed

lemma Add_times: "Add st (word_of_int k * s) = st + signed_take_bit 63 (k * sint s)"
  unfolding Add_def by (simp only: sint64_times)

lemma product_lower:
  assumes "0 < sint (s :: 64 word)"
  shows "- (2 ^ 63) \<le> (int n - 1) * sint s"
proof -
  have "0 \<le> int n * sint s" using assms by simp
  then have "- sint s \<le> (int n - 1) * sint s" by (simp add: algebra_simps)
  with sint64_upper [of s] show ?thesis by linarith
qed

lemma no_wrap:
  assumes "0 < sint (s :: 64 word)" and "(int n - 1) * sint s < 2 ^ 63"
  shows "signed_take_bit 63 ((int n - 1) * sint s) = (int n - 1) * sint s"
proof -
  have "- (2 ^ 63) \<le> (int n - 1) * sint s"
    using assms(1) by (rule product_lower)
  with assms(2) show ?thesis by (intro signed_take_bit_int_eq_self) simp_all
qed

lemma quotient_in_range:
  assumes "0 < sint (s :: 64 word)" "st \<le> t"
    and "t \<le> st + signed_take_bit 63 ((int n - 1) * sint s)"
  shows "0 \<le> (t - st) div sint s" and "(t - st) div sint s < int n"
proof -
  from assms show "0 \<le> (t - st) div sint s"
    by (simp add: pos_imp_zdiv_nonneg_iff)
  have "- (2 ^ 63) \<le> (int n - 1) * sint s"
    using assms(1) by (rule product_lower)
  then have "signed_take_bit 63 ((int n - 1) * sint s) \<le> (int n - 1) * sint s"
    by (rule wrap_le_self)
  with assms have "t - st \<le> (int n - 1) * sint s" by linarith
  then have "(t - st) div sint s \<le> ((int n - 1) * sint s) div sint s"
    using assms(1) by (intro zdiv_mono1) simp_all
  also have "\<dots> = int n - 1" using assms(1) by simp
  finally show "(t - st) div sint s < int n" by simp
qed

subsection \<open>The example states\<close>

lemma valid_seconds_series: "valid seconds_series 0"
  by (simp add: valid_def seconds_series_def)

lemma seconds_series_step: "0 < sint (Step 0 seconds_series)"
  by (simp add: Step_def seconds_series_def Second_def)



lemma single_wide_series_built:
  "NewTimeSeries now ''x'' t2014 (Add t2014 (2 ^ 62)) (2 ^ 62) [f7] empty_heap =
     Inr (Inr 0, single_wide_series)"
  by (simp add: NewTimeSeries_def t2014_def empty_heap_def single_wide_series_def IsZero_def
      After_def Equal_def Before_def Duration_div_def Sub_def make_slice_def Add_def slice_set_def
      NewTimeSeries_loop.simps)

lemma wide_series_built:
  "ExtendWith no_spare 0 [f1, f2] single_wide_series = wide_series"
  by (simp add: ExtendWith_def append_data_def append_slice_def wide_series_def
      single_wide_series_def no_spare_def)

subsection \<open>Samples, structs and frames\<close>

text \<open>
  What an operation on one series reads and writes: \<^verbatim>\<open>GetAt\<close> reads the struct and the
  backing array of its series only, \<^verbatim>\<open>SetAt\<close> and an assignment to an element write one
  backing array only.
\<close>

lemma length_samples: "valid h p \<Longrightarrow> length (samples h p) = len (data (objs h ! p))"
  by (simp add: valid_def samples_def)

lemma nth_samples:
  "i < len (data (objs h ! p)) \<Longrightarrow> samples h p ! i = arrs h ! arr (data (objs h ! p)) ! i"
  by (simp add: samples_def)

lemma data_update_trans:
  "c = b\<lparr>data := y\<rparr> \<Longrightarrow> b = a\<lparr>data := x\<rparr> \<Longrightarrow> c = a\<lparr>data := y\<rparr>"
  by simp

lemma data_update_fields:
  assumes "b = a\<lparr>data := x\<rparr>"
  shows "key b = key a" "start b = start a" "step b = step a" "filler b = filler a"
  using assms by simp_all

lemma GetAt_frame:
  assumes "objs h' ! p = objs h ! p"
    and "arrs h' ! arr (data (objs h ! p)) = arrs h ! arr (data (objs h ! p))"
  shows "GetAt p t h' = GetAt p t h"
proof -
  have "index p t h' = index p t h"
    using assms(1) by (simp add: index_def)
  moreover have "slice_get (data (objs h' ! p)) ix h' = slice_get (data (objs h ! p)) ix h" for ix
    using assms by (simp add: slice_get_def)
  ultimately show ?thesis
    by (simp add: GetAt_def split: sum.splits)
qed

lemma SetAt_frame:
  assumes "SetAt p t v h = Inr (b, h')"
  shows "objs h' = objs h" and "length (arrs h') = length (arrs h)"
    and "a \<noteq> arr (data (objs h ! p)) \<Longrightarrow> arrs h' ! a = arrs h ! a"
  using assms by (auto simp: SetAt_def slice_set_def split: sum.splits if_splits)

lemma slice_set_frame:
  assumes "slice_set d i v h = Inr h'"
  shows "objs h' = objs h" and "length (arrs h') = length (arrs h)"
    and "a \<noteq> arr d \<Longrightarrow> arrs h' ! a = arrs h ! a"
  using assms by (auto simp: slice_set_def split: if_splits)

subsection \<open>The loops\<close>

text \<open>
  Each loop over the indices of a slice is characterised by the array it leaves: the
  elements from the current index to the end of the slice are rewritten, the others are
  kept. No loop panics on a slice that lies within its backing array.
\<close>

lemma Data_loop_result:
  assumes "arr src < length (arrs h)" "arr dst < length (arrs h)" "arr src \<noteq> arr dst"
    and "len src \<le> len dst" "len dst \<le> length (arrs h ! arr dst)"
  shows "Data_loop src dst i h =
    Inr (h\<lparr>arrs := (arrs h)[arr dst :=
           map (\<lambda>j. if i \<le> j \<and> j < len src then arrs h ! arr src ! j else arrs h ! arr dst ! j)
             [0..<length (arrs h ! arr dst)]]\<rparr>)"
  using assms
proof (induction src dst i h rule: Data_loop.induct)
  case (1 src dst i h)
  let ?a = "arrs h ! arr src" and ?b = "arrs h ! arr dst"
  show ?case
  proof (cases "i < len src")
    case False
    then have "map (\<lambda>j. if i \<le> j \<and> j < len src then ?a ! j else ?b ! j) [0..<length ?b] = ?b"
      by (intro nth_equalityI) auto
    with False show ?thesis
      by (subst Data_loop.simps) simp
  next
    case True
    define h1 where "h1 = h\<lparr>arrs := (arrs h)[arr dst := ?b[i := ?a ! i]]\<rparr>"
    have g: "slice_get src (int i) h = Inr (?a ! i)"
      using True by (simp add: slice_get_def)
    have s: "slice_set dst (int i) (?a ! i) h = Inr h1"
      using True "1.prems" by (simp add: slice_set_def h1_def)
    have a1: "arrs h1 ! arr src = ?a" and b1: "arrs h1 ! arr dst = ?b[i := ?a ! i]"
      and l1: "length (arrs h1) = length (arrs h)"
      using "1.prems" by (simp_all add: h1_def)
    have ih: "Data_loop src dst (Suc i) h1 =
      Inr (h1\<lparr>arrs := (arrs h1)[arr dst :=
           map (\<lambda>j. if Suc i \<le> j \<and> j < len src then ?a ! j else ?b[i := ?a ! i] ! j)
             [0..<length ?b]]\<rparr>)"
    proof -
      have "arr src < length (arrs h1)" "arr dst < length (arrs h1)"
        "len dst \<le> length (arrs h1 ! arr dst)"
        using "1.prems" by (simp_all add: l1 b1)
      from "1.IH" [OF True g s this(1,2) "1.prems"(3,4) this(3)] show ?thesis
        unfolding a1 b1 by simp
    qed
    have fin: "h1\<lparr>arrs := (arrs h1)[arr dst := X]\<rparr> = h\<lparr>arrs := (arrs h)[arr dst := X]\<rparr>" for X
      by (simp add: h1_def)
    have eqmap: "map (\<lambda>j. if Suc i \<le> j \<and> j < len src then ?a ! j else ?b[i := ?a ! i] ! j)
        [0..<length ?b] =
      map (\<lambda>j. if i \<le> j \<and> j < len src then ?a ! j else ?b ! j) [0..<length ?b]"
      using True by (intro nth_equalityI) (auto simp: nth_list_update not_less_eq_eq dest: le_antisym)
    have "Data_loop src dst i h = Data_loop src dst (Suc i) h1"
      by (subst Data_loop.simps) (simp add: True g s)
    then show ?thesis
      by (simp only: ih fin eqmap)
  qed
qed

lemma Transform_loop_result:
  assumes "arr d < length (arrs h)" "len d \<le> length (arrs h ! arr d)"
  shows "Transform_loop tr d i h =
    Inr (h\<lparr>arrs := (arrs h)[arr d :=
           map (\<lambda>j. if i \<le> j \<and> j < len d then Apply tr (arrs h ! arr d ! j) else arrs h ! arr d ! j)
             [0..<length (arrs h ! arr d)]]\<rparr>)"
  using assms
proof (induction tr d i h rule: Transform_loop.induct)
  case (1 tr d i h)
  let ?a = "arrs h ! arr d"
  show ?case
  proof (cases "i < len d")
    case False
    then have "map (\<lambda>j. if i \<le> j \<and> j < len d then Apply tr (?a ! j) else ?a ! j) [0..<length ?a] = ?a"
      by (intro nth_equalityI) auto
    with False show ?thesis
      by (subst Transform_loop.simps) simp
  next
    case True
    define h1 where "h1 = h\<lparr>arrs := (arrs h)[arr d := ?a[i := Apply tr (?a ! i)]]\<rparr>"
    have g: "slice_get d (int i) h = Inr (?a ! i)"
      using True by (simp add: slice_get_def)
    have s: "slice_set d (int i) (Apply tr (?a ! i)) h = Inr h1"
      using True by (simp add: slice_set_def h1_def)
    have a1: "arrs h1 ! arr d = ?a[i := Apply tr (?a ! i)]"
      and l1: "length (arrs h1) = length (arrs h)"
      using "1.prems" by (simp_all add: h1_def)
    have ih: "Transform_loop tr d (Suc i) h1 =
      Inr (h1\<lparr>arrs := (arrs h1)[arr d :=
           map (\<lambda>j. if Suc i \<le> j \<and> j < len d then Apply tr (?a[i := Apply tr (?a ! i)] ! j)
                    else ?a[i := Apply tr (?a ! i)] ! j)
             [0..<length ?a]]\<rparr>)"
    proof -
      have "arr d < length (arrs h1)" "len d \<le> length (arrs h1 ! arr d)"
        using "1.prems" by (simp_all add: l1 a1)
      from "1.IH" [OF True g s this] show ?thesis
        unfolding a1 by simp
    qed
    have fin: "h1\<lparr>arrs := (arrs h1)[arr d := X]\<rparr> = h\<lparr>arrs := (arrs h)[arr d := X]\<rparr>" for X
      by (simp add: h1_def)
    have eqmap: "map (\<lambda>j. if Suc i \<le> j \<and> j < len d then Apply tr (?a[i := Apply tr (?a ! i)] ! j)
                    else ?a[i := Apply tr (?a ! i)] ! j) [0..<length ?a] =
      map (\<lambda>j. if i \<le> j \<and> j < len d then Apply tr (?a ! j) else ?a ! j) [0..<length ?a]"
      using True by (intro nth_equalityI) (auto simp: nth_list_update not_less_eq_eq dest: le_antisym)
    have "Transform_loop tr d i h = Transform_loop tr d (Suc i) h1"
      by (subst Transform_loop.simps) (simp add: True g s)
    then show ?thesis
      by (simp only: ih fin eqmap)
  qed
qed

lemma NewTimeSeries_loop_result:
  assumes "arr d < length (arrs h)" "len d \<le> length (arrs h ! arr d)"
  shows "NewTimeSeries_loop sv fill vs d i h =
    Inr (h\<lparr>arrs := (arrs h)[arr d :=
           map (\<lambda>j. if i \<le> j \<and> j < len d \<and> (sv \<or> j < length vs)
                    then (if sv then fill else vs ! j) else arrs h ! arr d ! j)
             [0..<length (arrs h ! arr d)]]\<rparr>)"
  using assms
proof (induction sv fill vs d i h rule: NewTimeSeries_loop.induct)
  case (1 sv fill vs d i h)
  let ?a = "arrs h ! arr d"
  let ?F = "\<lambda>i a j. if i \<le> j \<and> j < len d \<and> (sv \<or> j < length vs)
                    then (if sv then fill else vs ! j) else a ! j"
  show ?case
  proof (cases "i < len d \<and> (sv \<or> i < length vs)")
    case False
    then have "map (?F i ?a) [0..<length ?a] = ?a"
      by (intro nth_equalityI) auto
    with False show ?thesis
      by (subst NewTimeSeries_loop.simps) auto
  next
    case True
    define x where "x = (if sv then fill else vs ! i)"
    define h1 where "h1 = h\<lparr>arrs := (arrs h)[arr d := ?a[i := x]]\<rparr>"
    have s: "slice_set d (int i) x h = Inr h1"
      using True by (simp add: slice_set_def h1_def)
    have a1: "arrs h1 ! arr d = ?a[i := x]"
      and l1: "length (arrs h1) = length (arrs h)"
      using "1.prems" by (simp_all add: h1_def)
    have p1: "arr d < length (arrs h1)" "len d \<le> length (arrs h1 ! arr d)"
      using "1.prems" by (simp_all add: l1 a1)
    have ih: "NewTimeSeries_loop sv fill vs d (Suc i) h1 =
      Inr (h1\<lparr>arrs := (arrs h1)[arr d := map (?F (Suc i) (?a[i := x])) [0..<length ?a]]\<rparr>)"
    proof (cases sv)
      case True
      with \<open>i < len d \<and> (sv \<or> i < length vs)\<close> s have "i < len d" "sv"
        "slice_set d (int i) fill h = Inr h1" by (simp_all add: x_def)
      from "1.IH"(1) [OF this p1] show ?thesis
        unfolding a1 by simp
    next
      case False
      with \<open>i < len d \<and> (sv \<or> i < length vs)\<close> s have "i < len d" "\<not> sv" "i < length vs"
        "slice_set d (int i) (vs ! i) h = Inr h1" by (simp_all add: x_def)
      from "1.IH"(2) [OF this p1] show ?thesis
        unfolding a1 by simp
    qed
    have fin: "h1\<lparr>arrs := (arrs h1)[arr d := X]\<rparr> = h\<lparr>arrs := (arrs h)[arr d := X]\<rparr>" for X
      by (simp add: h1_def)
    have eqmap: "map (?F (Suc i) (?a[i := x])) [0..<length ?a] = map (?F i ?a) [0..<length ?a]"
      using True
      by (intro nth_equalityI) (auto simp: nth_list_update not_less_eq_eq x_def dest: le_antisym)
    have "NewTimeSeries_loop sv fill vs d i h = NewTimeSeries_loop sv fill vs d (Suc i) h1"
      using True s by (subst NewTimeSeries_loop.simps) (auto simp: x_def)
    then show ?thesis
      by (simp only: ih fin eqmap)
  qed
qed

lemma append_data_result:
  assumes "valid h p"
  shows "valid (append_data g p xs h) p \<and>
    samples (append_data g p xs h) p = samples h p @ xs \<and>
    objs (append_data g p xs h) ! p =
      (objs h ! p)\<lparr>data := data (objs (append_data g p xs h) ! p)\<rparr>"
proof -
  let ?s = "data (objs h ! p)"
  let ?a = "arrs h ! arr ?s"
  let ?n = "len ?s + length xs"
  from assms have v: "p < length (objs h)" "arr ?s < length (arrs h)" "len ?s \<le> length ?a"
    by (simp_all add: valid_def)
  show ?thesis
  proof (cases "?n \<le> length ?a")
    case True
    then have e: "append_data g p xs h =
      h\<lparr>arrs := (arrs h)[arr ?s := take (len ?s) ?a @ xs @ drop ?n ?a],
        objs := (objs h)[p := (objs h ! p)\<lparr>data := \<lparr>arr = arr ?s, len = ?n\<rparr>\<rparr>]\<rparr>"
      by (simp add: append_data_def append_slice_def Let_def)
    show ?thesis
      using v True unfolding e by (simp add: valid_def samples_def)
  next
    case False
    then have e: "append_data g p xs h =
      h\<lparr>arrs := arrs h @ [take (len ?s) ?a @ xs @ replicate (g (length ?a) ?n) 0],
        objs := (objs h)[p := (objs h ! p)\<lparr>data := \<lparr>arr = length (arrs h), len = ?n\<rparr>\<rparr>]\<rparr>"
      by (simp add: append_data_def append_slice_def Let_def)
    show ?thesis
      using v False unfolding e by (simp add: valid_def samples_def)
  qed
qed

lemma Extend_loop_result:
  assumes "valid h p"
  shows "valid (Extend_loop g p points i h) p \<and>
    samples (Extend_loop g p points i h) p =
      samples h p @ replicate (nat (points - i)) (filler (objs h ! p)) \<and>
    objs (Extend_loop g p points i h) ! p =
      (objs h ! p)\<lparr>data := data (objs (Extend_loop g p points i h) ! p)\<rparr>"
  using assms
proof (induction g p points i h rule: Extend_loop.induct)
  case (1 g p points i h)
  show ?case
  proof (cases "i < points")
    case False
    then have "Extend_loop g p points i h = h"
      by (subst Extend_loop.simps) simp
    with False "1.prems" show ?thesis by simp
  next
    case True
    define h1 where "h1 = append_data g p [filler (objs h ! p)] h"
    have e: "Extend_loop g p points i h = Extend_loop g p points (i + 1) h1"
      using True by (subst Extend_loop.simps) (simp add: h1_def)
    have a: "valid h1 p" "samples h1 p = samples h p @ [filler (objs h ! p)]"
      "objs h1 ! p = (objs h ! p)\<lparr>data := data (objs h1 ! p)\<rparr>"
      unfolding h1_def using append_data_result [OF "1.prems"] by blast+
    from a(3) have f: "filler (objs h1 ! p) = filler (objs h ! p)"
      by (rule data_update_fields)
    have r: "nat (points - i) = Suc (nat (points - (i + 1)))"
      using True by simp
    from "1.IH" [OF True, folded h1_def, OF a(1)]
    have ih: "valid (Extend_loop g p points (i + 1) h1) p"
      "samples (Extend_loop g p points (i + 1) h1) p =
        samples h1 p @ replicate (nat (points - (i + 1))) (filler (objs h1 ! p))"
      "objs (Extend_loop g p points (i + 1) h1) ! p =
        (objs h1 ! p)\<lparr>data := data (objs (Extend_loop g p points (i + 1) h1) ! p)\<rparr>"
      by simp_all
    from ih(3) a(3) have "objs (Extend_loop g p points (i + 1) h1) ! p =
        (objs h ! p)\<lparr>data := data (objs (Extend_loop g p points (i + 1) h1) ! p)\<rparr>"
      by (rule data_update_trans)
    with ih(1,2) show ?thesis
      unfolding e a(2) f r by simp
  qed
qed

subsection \<open>Point access\<close>

text \<open>
  With a positive step \<^verbatim>\<open>index\<close> never panics, and the index it returns lies within the
  data whatever the product \<open>(n - 1) * step\<close> wraps around to.
\<close>

lemma index_pos_step:
  assumes "0 < sint (step (objs h ! p))"
  shows "index p t h =
    (if start (objs h ! p) \<le> t \<and>
        t \<le> start (objs h ! p) +
            signed_take_bit 63 ((int (len (data (objs h ! p))) - 1) * sint (step (objs h ! p)))
     then Inr ((t - start (objs h ! p)) div sint (step (objs h ! p)))
     else Inr (- 1))"
proof -
  let ?st = "start (objs h ! p)" and ?s = "step (objs h ! p)"
  let ?w = "signed_take_bit 63 ((int (len (data (objs h ! p))) - 1) * sint ?s)"
  show ?thesis
  proof (cases "?st \<le> t \<and> t \<le> ?st + ?w")
    case True
    have "?w < 2 ^ 63" by (rule signed_take_bit_int_less_exp)
    with True have r: "0 \<le> t - ?st" "t - ?st < 2 ^ 63" by linarith+
    then have d: "sint (Sub t ?st) = t - ?st" by (intro Sub_in_range) linarith+
    with r assms have
      "Duration_div (Sub t ?st) ?s = Inr (word_of_int ((t - ?st) div sint ?s))"
      "sint (word_of_int ((t - ?st) div sint ?s) :: 64 word) = (t - ?st) div sint ?s"
      using Duration_div_pos [of "Sub t ?st" ?s] by simp_all
    with True show ?thesis
      unfolding index_def Add_times Before_def After_def Let_def by simp
  next
    case False
    then show ?thesis
      unfolding index_def Add_times Before_def After_def Let_def by auto
  qed
qed

lemma GetAt_pos_step:
  assumes "valid h p" and "0 < sint (step (objs h ! p))"
  shows "GetAt p t h =
    (if start (objs h ! p) \<le> t \<and>
        t \<le> start (objs h ! p) +
            signed_take_bit 63 ((int (length (samples h p)) - 1) * sint (step (objs h ! p)))
     then Inr (samples h p ! nat ((t - start (objs h ! p)) div sint (step (objs h ! p))), True)
     else Inr (NaN, False))"
proof -
  let ?st = "start (objs h ! p)" and ?s = "step (objs h ! p)" and ?n = "len (data (objs h ! p))"
  let ?q = "(t - ?st) div sint ?s"
  have n: "length (samples h p) = ?n" using assms(1) by (rule length_samples)
  show ?thesis
  proof (cases "?st \<le> t \<and> t \<le> ?st + signed_take_bit 63 ((int ?n - 1) * sint ?s)")
    case True
    then have q: "0 \<le> ?q" "?q < int ?n"
      using quotient_in_range [OF assms(2), of ?st t ?n] by simp_all
    then have "nat ?q < ?n" by linarith
    then have "samples h p ! nat ?q = arrs h ! arr (data (objs h ! p)) ! nat ?q"
      by (rule nth_samples)
    with True q show ?thesis
      by (simp add: GetAt_def index_pos_step [OF assms(2)] n slice_get_def)
  next
    case False
    then have "index p t h = Inr (- 1)"
      by (simp only: index_pos_step [OF assms(2)] if_False)
    with False show ?thesis
      by (simp only: GetAt_def n if_False sum.case) simp
  qed
qed

lemma GetAt_no_wrap:
  assumes "valid h p" and "0 < sint (step (objs h ! p))"
    and "(int (length (samples h p)) - 1) * sint (step (objs h ! p)) < 2 ^ 63"
  shows "GetAt p t h =
    (if start (objs h ! p) \<le> t \<and>
        t \<le> start (objs h ! p) + (int (length (samples h p)) - 1) * sint (step (objs h ! p))
     then Inr (samples h p ! nat ((t - start (objs h ! p)) div sint (step (objs h ! p))), True)
     else Inr (NaN, False))"
  using GetAt_pos_step [OF assms(1,2), of t] no_wrap [OF assms(2,3)] by simp

text \<open>
  Claim C1, amended. For every series with a positive step and \<open>n\<close> samples such that
  \<open>(n - 1) * step\<close> fits a \<^verbatim>\<open>Duration\<close>, \<^verbatim>\<open>GetAt(t)\<close> returns the sample at the truncated
  quotient of \<open>t - start\<close> by the step, and \<^verbatim>\<open>true\<close>, exactly when
  \<open>start \<le> t \<le> start + (n - 1) * step\<close>, and \<^verbatim>\<open>(NaN, false)\<close> for every other \<open>t\<close>. An
  instant between two samples is thus read as the sample before it.
\<close>

theorem GetAt_found_iff_in_range:
  assumes "valid h p" and "0 < sint (Step p h)"
    and "(int (length (samples h p)) - 1) * sint (Step p h) < 2 ^ 63"
  shows "GetAt p t h =
    (if Start p h \<le> t \<and> t \<le> Start p h + (int (length (samples h p)) - 1) * sint (Step p h)
     then Inr (samples h p ! nat ((t - Start p h) sdiv sint (Step p h)), True)
     else Inr (NaN, False))"
proof -
  have "Start p h \<le> t \<Longrightarrow>
      (t - Start p h) sdiv sint (Step p h) = (t - Start p h) div sint (Step p h)"
    using assms(2) by (intro sdiv_nonneg) simp_all
  then show ?thesis
    using GetAt_no_wrap [of h p t] assms by (auto simp: Start_def Step_def)
qed

theorem GetAt_found_iff_in_range_witness:
  "valid seconds_series 0 \<and> 0 < sint (Step 0 seconds_series) \<and>
   (int (length (samples seconds_series 0)) - 1) * sint (Step 0 seconds_series) < 2 ^ 63 \<and>
   GetAt 0 (t2014 + 1500000000) seconds_series = Inr (f2, True) \<and>
   GetAt 0 (t2014 + 2000000000) seconds_series = Inr (f3, True) \<and>
   GetAt 0 (t2014 + 2000000001) seconds_series = Inr (NaN, False) \<and>
   GetAt 0 (t2014 - 1) seconds_series = Inr (NaN, False)"
proof -
  have v: "valid seconds_series 0" by (rule valid_seconds_series)
  have s: "0 < sint (Step 0 seconds_series)" by (rule seconds_series_step)
  have r: "(int (length (samples seconds_series 0)) - 1) * sint (Step 0 seconds_series) < 2 ^ 63"
    by (simp add: samples_def seconds_series_def Step_def Second_def)
  have c: "Start 0 seconds_series = t2014" "sint (Step 0 seconds_series) = 1000000000"
    "samples seconds_series 0 = [f1, f2, f3]"
    by (simp_all add: Start_def Step_def seconds_series_def Second_def samples_def)
  show ?thesis
    using v s r GetAt_found_iff_in_range [OF v s r]
    unfolding c by (simp add: signed_divide_int_def)
qed

text \<open>
  Without the bound on the product the property fails. In the series of three samples
  with a step of \<open>2 ^ 62\<close> nanoseconds the instant of the second sample lies between
  the start and \<open>start + 2 * step\<close>, but \<^verbatim>\<open>GetAt\<close> does not find it: \<^verbatim>\<open>index\<close> computes
  \<open>2 * step\<close> as \<open>- 2 ^ 63\<close>.
\<close>

theorem GetAt_overflow_counterexample:
  "valid wide_series 0 \<and> 0 < sint (Step 0 wide_series) \<and> length (samples wide_series 0) = 3 \<and>
   Start 0 wide_series \<le> t2014 + 2 ^ 62 \<and>
   t2014 + 2 ^ 62 \<le> Start 0 wide_series + (3 - 1) * sint (Step 0 wide_series) \<and>
   GetAt 0 (t2014 + 2 ^ 62) wide_series = Inr (NaN, False)"
  by code_simp

lemma SetAt_pos_step:
  assumes "valid h p" and "0 < sint (step (objs h ! p))"
  shows "(\<exists>x h'. GetAt p t h = Inr (x, True) \<and> SetAt p t v h = Inr (True, h') \<and>
       GetAt p t h' = Inr (v, True) \<and> objs h' = objs h \<and> valid h' p \<and>
       samples h' p =
         (samples h p)[nat ((t - start (objs h ! p)) div sint (step (objs h ! p))) := v]) \<or>
     (GetAt p t h = Inr (NaN, False) \<and> SetAt p t v h = Inr (False, h))"
proof -
  let ?st = "start (objs h ! p)" and ?s = "step (objs h ! p)" and ?n = "len (data (objs h ! p))"
  let ?a = "arr (data (objs h ! p))"
  let ?q = "(t - ?st) div sint ?s"
  have n: "length (samples h p) = ?n" using assms(1) by (rule length_samples)
  from assms(1) have v: "p < length (objs h)" "?a < length (arrs h)" "?n \<le> length (arrs h ! ?a)"
    by (simp_all add: valid_def)
  show ?thesis
  proof (cases "?st \<le> t \<and> t \<le> ?st + signed_take_bit 63 ((int ?n - 1) * sint ?s)")
    case True
    then have q: "0 \<le> ?q" "?q < int ?n"
      using quotient_in_range [OF assms(2), of ?st t ?n] by simp_all
    then have q': "nat ?q < ?n" "?q \<noteq> - 1" by linarith+
    define h' where "h' = h\<lparr>arrs := (arrs h)[?a := (arrs h ! ?a)[nat ?q := v]]\<rparr>"
    have ix: "index p t h = Inr ?q"
      using True by (simp only: index_pos_step [OF assms(2)] if_True simp_thms)
    have g: "GetAt p t h = Inr (samples h p ! nat ?q, True)"
      using True by (simp only: GetAt_pos_step [OF assms] n if_True simp_thms)
    have s: "SetAt p t v h = Inr (True, h')"
      using q q' by (simp add: SetAt_def ix slice_set_def h'_def)
    have o: "objs h' = objs h" by (simp add: h'_def)
    have a': "arrs h' ! ?a = (arrs h ! ?a)[nat ?q := v]"
      using v by (simp add: h'_def)
    have v': "valid h' p"
      using v by (simp add: valid_def o a') (simp add: h'_def)
    have sm: "samples h' p = (samples h p)[nat ?q := v]"
      by (simp add: samples_def o a' take_update_swap)
    have n': "length (samples h' p) = ?n" using n by (simp add: sm)
    have st': "start (objs h' ! p) = ?st" "step (objs h' ! p) = ?s"
      by (simp_all add: o)
    have "GetAt p t h' = Inr (samples h' p ! nat ?q, True)"
      using True assms(2)
      by (simp only: GetAt_pos_step [OF v', unfolded st', OF assms(2)] n' if_True simp_thms)
    also have "samples h' p ! nat ?q = v"
      using q' n by (simp add: sm)
    finally show ?thesis using g s o v' sm by blast
  next
    case False
    then have ix: "index p t h = Inr (- 1)"
      by (simp only: index_pos_step [OF assms(2)] if_False)
    from False have "GetAt p t h = Inr (NaN, False)"
      by (simp only: GetAt_pos_step [OF assms] n if_False)
    moreover have "SetAt p t v h = Inr (False, h)"
      by (simp add: SetAt_def ix)
    ultimately show ?thesis by blast
  qed
qed

text \<open>
  Claim C2, amended. For every series with a positive step and every instant \<open>t\<close>: when
  \<open>t\<close> is in range, that is when \<^verbatim>\<open>GetAt(t)\<close> finds a sample, \<^verbatim>\<open>SetAt(t, v)\<close> returns
  \<^verbatim>\<open>true\<close>, the struct is what it was, the samples are the old ones with \<open>v\<close> at the
  truncated quotient of \<open>t - start\<close> by the step, and a \<^verbatim>\<open>GetAt(t)\<close> after it returns
  \<open>(v, true)\<close>; when \<open>t\<close> is out of range, that is when \<^verbatim>\<open>GetAt(t)\<close> returns
  \<^verbatim>\<open>(NaN, false)\<close>, \<^verbatim>\<open>SetAt(t, v)\<close> returns \<^verbatim>\<open>false\<close> and the heap, hence the series, is what
  it was. When \<open>(n - 1) * step\<close> fits a \<^verbatim>\<open>Duration\<close>, \<open>n\<close> being the number of samples,
  the instants in range are those with \<open>start \<le> t \<le> start + (n - 1) * step\<close>.
\<close>

theorem SetAt_in_range:
  assumes "valid h p" and "0 < sint (Step p h)"
  shows "((\<exists>x h'. GetAt p t h = Inr (x, True) \<and> SetAt p t v h = Inr (True, h') \<and>
        objs h' = objs h \<and> valid h' p \<and>
        samples h' p = (samples h p)[nat ((t - Start p h) sdiv sint (Step p h)) := v] \<and>
        GetAt p t h' = Inr (v, True)) \<or>
      (GetAt p t h = Inr (NaN, False) \<and> SetAt p t v h = Inr (False, h))) \<and>
    ((int (length (samples h p)) - 1) * sint (Step p h) < 2 ^ 63 \<longrightarrow>
      ((\<exists>x. GetAt p t h = Inr (x, True)) \<longleftrightarrow>
       Start p h \<le> t \<and> t \<le> Start p h + (int (length (samples h p)) - 1) * sint (Step p h)))"
proof (intro conjI impI)
  from assms(2) have s: "0 < sint (step (objs h ! p))" by (simp add: Step_def)
  have f: "GetAt p t h \<noteq> Inr (x, True)" if "t < start (objs h ! p)" for x
    using that by (simp add: GetAt_pos_step [OF assms(1) s] split: if_splits)
  have "(t - Start p h) sdiv sint (Step p h) = (t - Start p h) div sint (Step p h)"
    if "GetAt p t h = Inr (x, True)" for x
  proof -
    from f that have "Start p h \<le> t" by (fastforce simp: Start_def)
    with assms(2) show ?thesis by (intro sdiv_nonneg) simp_all
  qed
  with SetAt_pos_step [OF assms(1) s, of t v]
  show "(\<exists>x h'. GetAt p t h = Inr (x, True) \<and> SetAt p t v h = Inr (True, h') \<and>
        objs h' = objs h \<and> valid h' p \<and>
        samples h' p = (samples h p)[nat ((t - Start p h) sdiv sint (Step p h)) := v] \<and>
        GetAt p t h' = Inr (v, True)) \<or>
      (GetAt p t h = Inr (NaN, False) \<and> SetAt p t v h = Inr (False, h))"
    by (auto simp: Start_def Step_def)
next
  assume r: "(int (length (samples h p)) - 1) * sint (Step p h) < 2 ^ 63"
  from assms(2) have s: "0 < sint (step (objs h ! p))" by (simp add: Step_def)
  from r have "(int (length (samples h p)) - 1) * sint (step (objs h ! p)) < 2 ^ 63"
    by (simp add: Step_def)
  from GetAt_no_wrap [OF assms(1) s this, of t]
  show "(\<exists>x. GetAt p t h = Inr (x, True)) \<longleftrightarrow>
       Start p h \<le> t \<and> t \<le> Start p h + (int (length (samples h p)) - 1) * sint (Step p h)"
    by (auto simp: Start_def Step_def)
qed

theorem SetAt_in_range_witness:
  "valid seconds_series 0 \<and> 0 < sint (Step 0 seconds_series) \<and>
   (\<exists>h'. SetAt 0 (t2014 + 1500000000) f7 seconds_series = Inr (True, h') \<and>
      samples h' 0 = [f1, f7, f3] \<and> GetAt 0 (t2014 + 1500000000) h' = Inr (f7, True)) \<and>
   SetAt 0 (t2014 + 3000000000) f7 seconds_series = Inr (False, seconds_series) \<and>
   (int (length (samples seconds_series 0)) - 1) * sint (Step 0 seconds_series) < 2 ^ 63 \<and>
   (\<exists>x. GetAt 0 (t2014 + 2000000000) seconds_series = Inr (x, True))"
proof -
  have v: "valid seconds_series 0" by (rule valid_seconds_series)
  have s: "0 < sint (Step 0 seconds_series)" by (rule seconds_series_step)
  have r: "(int (length (samples seconds_series 0)) - 1) * sint (Step 0 seconds_series) < 2 ^ 63"
    by (simp add: samples_def seconds_series_def Step_def Second_def)
  have g1: "GetAt 0 (t2014 + 1500000000) seconds_series = Inr (f2, True)"
    and g2: "GetAt 0 (t2014 + 3000000000) seconds_series = Inr (NaN, False)"
    by code_simp+
  have u: "(samples seconds_series 0)
      [nat ((t2014 + 1500000000 - Start 0 seconds_series) sdiv sint (Step 0 seconds_series)) := f7] =
      [f1, f7, f3]"
    by code_simp
  have i: "Start 0 seconds_series \<le> t2014 + 2000000000 \<and>
      t2014 + 2000000000 \<le> Start 0 seconds_series +
        (int (length (samples seconds_series 0)) - 1) * sint (Step 0 seconds_series)"
    by code_simp
  from SetAt_in_range [OF v s, of "t2014 + 1500000000" f7] g1
  have "\<exists>h'. SetAt 0 (t2014 + 1500000000) f7 seconds_series = Inr (True, h') \<and>
      samples h' 0 = [f1, f7, f3] \<and> GetAt 0 (t2014 + 1500000000) h' = Inr (f7, True)"
    unfolding u by auto
  moreover from SetAt_in_range [OF v s, of "t2014 + 3000000000" f7] g2
  have "SetAt 0 (t2014 + 3000000000) f7 seconds_series = Inr (False, seconds_series)"
    by auto
  moreover from SetAt_in_range [OF v s, of "t2014 + 2000000000" f7] r i
  have "\<exists>x. GetAt 0 (t2014 + 2000000000) seconds_series = Inr (x, True)"
    by blast
  ultimately show ?thesis using v s r by blast
qed

text \<open>
  Without the bound on the product \<^verbatim>\<open>SetAt\<close> refuses the instant of the second sample of
  the series with a step of \<open>2 ^ 62\<close> nanoseconds; and without a positive step it can
  panic: on the empty series with a step of minus one second, which the constructor
  builds, \<^verbatim>\<open>SetAt\<close> at the start indexes an empty slice.
\<close>

theorem SetAt_counterexample:
  "valid wide_series 0 \<and> 0 < sint (Step 0 wide_series) \<and> length (samples wide_series 0) = 3 \<and>
   Start 0 wide_series \<le> t2014 + 2 ^ 62 \<and>
   t2014 + 2 ^ 62 \<le> Start 0 wide_series + (3 - 1) * sint (Step 0 wide_series) \<and>
   SetAt 0 (t2014 + 2 ^ 62) f3 wide_series = Inr (False, wide_series) \<and>
   valid backward_series 0 \<and>
   NewTimeSeries t2014 ''x'' t2014 t2014 (- Second) [] empty_heap = Inr (Inr 0, backward_series) \<and>
   SetAt 0 t2014 f1 backward_series = Inl IndexOutOfRange"
  by code_simp

subsection \<open>Construction\<close>

text \<open>
  The constructor unfolded: its two reachable errors (the third check repeats the first
  and is never reached), the panic of \<^verbatim>\<open>make\<close> on a negative size, and the series it
  builds otherwise. With a positive step the size is never negative.
\<close>

lemma NewTimeSeries_fill:
  assumes "0 \<le> n"
  shows "(case make_slice n h of
       Inl e \<Rightarrow> Inl e
     | Inr (d, h1) \<Rightarrow>
         (case NewTimeSeries_loop sv fill vs d 0
                 (h1\<lparr>objs := objs h1 @
                    [\<lparr>key = k, start = st, step = stp, data = d, filler = fill\<rparr>]\<rparr>) of
            Inl e \<Rightarrow> Inl e
          | Inr h2 \<Rightarrow> Inr (Inr (length (objs h1)), h2))) =
    Inr (Inr (length (objs h)),
         h\<lparr>objs := objs h @
              [\<lparr>key = k, start = st, step = stp,
                data = \<lparr>arr = length (arrs h), len = nat n\<rparr>, filler = fill\<rparr>],
           arrs := arrs h @
              [map (\<lambda>j. if sv \<or> j < length vs then (if sv then fill else vs ! j) else 0)
                 [0..<nat n]]\<rparr>)"
proof -
  let ?d = "\<lparr>arr = length (arrs h), len = nat n\<rparr>"
  define h2 where "h2 = h\<lparr>arrs := arrs h @ [replicate (nat n) 0],
    objs := objs h @ [\<lparr>key = k, start = st, step = stp, data = ?d, filler = fill\<rparr>]\<rparr>"
  have a2: "arrs h2 ! arr ?d = replicate (nat n) 0"
    by (simp add: h2_def)
  have "NewTimeSeries_loop sv fill vs ?d 0 h2 =
    Inr (h2\<lparr>arrs := (arrs h2)[arr ?d :=
           map (\<lambda>j. if 0 \<le> j \<and> j < len ?d \<and> (sv \<or> j < length vs)
                    then (if sv then fill else vs ! j) else arrs h2 ! arr ?d ! j)
             [0..<length (arrs h2 ! arr ?d)]]\<rparr>)"
    by (intro NewTimeSeries_loop_result) (simp_all add: h2_def)
  also have "map (\<lambda>j. if 0 \<le> j \<and> j < len ?d \<and> (sv \<or> j < length vs)
                    then (if sv then fill else vs ! j) else arrs h2 ! arr ?d ! j)
             [0..<length (arrs h2 ! arr ?d)] =
      map (\<lambda>j. if sv \<or> j < length vs then (if sv then fill else vs ! j) else 0) [0..<nat n]"
    unfolding a2 by (intro nth_equalityI) auto
  finally have "NewTimeSeries_loop sv fill vs ?d 0 h2 =
    Inr (h2\<lparr>arrs := (arrs h2)[arr ?d :=
      map (\<lambda>j. if sv \<or> j < length vs then (if sv then fill else vs ! j) else 0) [0..<nat n]]\<rparr>)" .
  with assms show ?thesis
    by (simp add: make_slice_def h2_def)
qed

lemma NewTimeSeries_unfold:
  fixes now start0 end0 :: Time and stp :: Duration and vs :: "float64 list"
  defines "st \<equiv> (if start0 = 0 then now else start0)"
  defines "en \<equiv> (if end0 = 0 \<and> end0 < st + sint (of_nat (length vs) * stp)
                   then st + sint (of_nat (length vs) * stp) else end0)"
  defines "fill \<equiv> (if length vs = 1 then vs ! 0 else NaN)"
  defines "q \<equiv> sint (word_of_int (sint (Sub en st) sdiv sint stp) :: Duration)"
  shows "NewTimeSeries now k start0 end0 stp vs h =
    (if stp = 0 then Inr (Inl StepZero, h)
     else if en < st then Inr (Inl (StartAfterEnd st en), h)
     else if q < 0 then Inl MakesliceLenOutOfRange
     else Inr (Inr (length (objs h)),
         h\<lparr>objs := objs h @
              [\<lparr>key = k, start = st, step = stp,
                data = \<lparr>arr = length (arrs h), len = nat q\<rparr>, filler = fill\<rparr>],
           arrs := arrs h @
              [map (\<lambda>j. if length vs = 1 \<or> j < length vs
                        then (if length vs = 1 then fill else vs ! j) else 0)
                 [0..<nat q]]\<rparr>))"
proof -
  have base: "NewTimeSeries now k start0 end0 stp vs h =
    (if stp = 0 then Inr (Inl StepZero, h)
     else if en < st then Inr (Inl (StartAfterEnd st en), h)
     else (case Duration_div (Sub en st) stp of
        Inl e \<Rightarrow> Inl e
      | Inr sz \<Rightarrow>
         (case make_slice (sint sz) h of
            Inl e \<Rightarrow> Inl e
          | Inr (d, h1) \<Rightarrow>
              (case NewTimeSeries_loop (length vs = 1) fill vs d 0
                      (h1\<lparr>objs := objs h1 @
                         [\<lparr>key = k, start = st, step = stp, data = d, filler = fill\<rparr>]\<rparr>) of
                 Inl e \<Rightarrow> Inl e
               | Inr h2 \<Rightarrow> Inr (Inr (length (objs h1)), h2)))))"
    unfolding NewTimeSeries_def Let_def IsZero_def Before_def After_def Add_def Equal_def
      st_def en_def fill_def
    by (simp add: signed_eq_0_iff split del: if_split cong: if_cong)
  show ?thesis
  proof (cases "stp = 0 \<or> en < st")
    case True
    then show ?thesis unfolding base by auto
  next
    case False
    have d: "Duration_div (Sub en st) stp = Inr (word_of_int (sint (Sub en st) sdiv sint stp))"
      using False by (simp add: Duration_div_def)
    show ?thesis
    proof (cases "q < 0")
      case True
      with False show ?thesis
        unfolding base d by (simp add: make_slice_def q_def)
    next
      case q: False
      then have "0 \<le> q" by simp
      from NewTimeSeries_fill [where n = q and sv = "length vs = 1" and fill = fill and vs = vs
          and h = h and k = k and st = st and stp = stp, OF this] False q
      show ?thesis
        unfolding base d by (simp add: q_def del: One_nat_def)
    qed
  qed
qed

lemma NewTimeSeries_shape:
  "\<exists>st fill en q.
     st = (if start0 = 0 then now else start0) \<and>
     fill = (if length vs = 1 then vs ! 0 else NaN) \<and>
     en = (if end0 = 0 \<and> end0 < st + sint (of_nat (length vs) * stp)
           then st + sint (of_nat (length vs) * stp) else end0) \<and>
     q = sint (word_of_int (sint (Sub en st) sdiv sint stp) :: Duration) \<and>
     NewTimeSeries now k start0 end0 stp vs h =
       (if stp = 0 then Inr (Inl StepZero, h)
        else if en < st then Inr (Inl (StartAfterEnd st en), h)
        else if q < 0 then Inl MakesliceLenOutOfRange
        else Inr (Inr (length (objs h)),
            h\<lparr>objs := objs h @
                 [\<lparr>key = k, start = st, step = stp,
                   data = \<lparr>arr = length (arrs h), len = nat q\<rparr>, filler = fill\<rparr>],
              arrs := arrs h @
                 [map (\<lambda>j. if length vs = 1 \<or> j < length vs
                           then (if length vs = 1 then fill else vs ! j) else 0)
                    [0..<nat q]]\<rparr>))"
  by (rule exI conjI refl NewTimeSeries_unfold)+

lemma NewTimeSeries_success:
  assumes "NewTimeSeries now k start0 end0 stp vs h = Inr (Inr p, h')"
  shows "\<exists>n. p = length (objs h) \<and> valid h' p \<and>
    samples h' p =
      map (\<lambda>j. if length vs = 1 \<or> j < length vs
                then (if length vs = 1 then vs ! 0 else vs ! j) else 0) [0..<n] \<and>
    filler (objs h' ! p) = (if length vs = 1 then vs ! 0 else NaN) \<and>
    key (objs h' ! p) = k \<and> step (objs h' ! p) = stp \<and>
    start (objs h' ! p) = (if start0 = 0 then now else start0)"
proof -
  from NewTimeSeries_shape [of start0 now vs end0 stp k h]
  obtain st fill en q where d: "st = (if start0 = 0 then now else start0)"
      "fill = (if length vs = 1 then vs ! 0 else NaN)"
    and e: "NewTimeSeries now k start0 end0 stp vs h =
       (if stp = 0 then Inr (Inl StepZero, h)
        else if en < st then Inr (Inl (StartAfterEnd st en), h)
        else if q < 0 then Inl MakesliceLenOutOfRange
        else Inr (Inr (length (objs h)),
            h\<lparr>objs := objs h @
                 [\<lparr>key = k, start = st, step = stp,
                   data = \<lparr>arr = length (arrs h), len = nat q\<rparr>, filler = fill\<rparr>],
              arrs := arrs h @
                 [map (\<lambda>j. if length vs = 1 \<or> j < length vs
                           then (if length vs = 1 then fill else vs ! j) else 0)
                    [0..<nat q]]\<rparr>))"
    by blast
  from assms have r: "p = length (objs h)"
    "h' = h\<lparr>objs := objs h @
                 [\<lparr>key = k, start = st, step = stp,
                   data = \<lparr>arr = length (arrs h), len = nat q\<rparr>, filler = fill\<rparr>],
              arrs := arrs h @
                 [map (\<lambda>j. if length vs = 1 \<or> j < length vs
                           then (if length vs = 1 then fill else vs ! j) else 0)
                    [0..<nat q]]\<rparr>"
    unfolding e by (simp_all split: if_splits)
  show ?thesis
    unfolding r by (intro exI [of _ "nat q"]) (simp add: valid_def samples_def d)
qed

lemma NewTimeSeries_three_outcomes:
  "NewTimeSeries now k start0 end0 stp vs h \<noteq> Inr (Inl StepZeroStartNotEnd, h')"
proof -
  from NewTimeSeries_shape [of start0 now vs end0 stp k h]
  obtain st fill en q :: int and X where
    "NewTimeSeries now k start0 end0 stp vs h =
       (if stp = 0 then Inr (Inl StepZero, h)
        else if en < st then Inr (Inl (StartAfterEnd st en), h)
        else if q < 0 then Inl MakesliceLenOutOfRange
        else Inr (Inr (length (objs h)), X))"
    by blast
  then show ?thesis by (simp split: if_splits)
qed

lemma NewTimeSeries_pos_step_no_panic:
  assumes "0 < sint stp"
  shows "NewTimeSeries now k start0 end0 stp vs h \<noteq> Inl e"
proof -
  from NewTimeSeries_shape [of start0 now vs end0 stp k h]
  obtain st en :: int and fill q X where
    q: "q = sint (word_of_int (sint (Sub en st) sdiv sint stp) :: Duration)" and
    e: "NewTimeSeries now k start0 end0 stp vs h =
       (if stp = 0 then Inr (Inl StepZero, h)
        else if en < st then Inr (Inl (StartAfterEnd st en), h)
        else if q < 0 then Inl MakesliceLenOutOfRange
        else Inr (Inr (length (objs h)), X))"
    by blast
  have "0 \<le> q" if "\<not> en < st"
  proof -
    from that have n: "0 \<le> sint (Sub en st)" by (rule Sub_nonneg)
    from Duration_div_pos(2) [OF n assms] sdiv_nonneg [OF n assms] n assms
    show ?thesis unfolding q by (simp add: pos_imp_zdiv_nonneg_iff)
  qed
  then show ?thesis unfolding e by (auto split: if_splits)
qed

text \<open>
  Claim C3: the constructor fails only with one of its three errors, construction
  succeeds for every other input, a negative step with the end after the start included,
  and no other operation can fail. The code does otherwise. With a step of minus one
  second and an end ten seconds after the start, whatever the key, the values and the
  clock, the computed size is \<open>-10\<close> and \<^verbatim>\<open>make\<close> panics. With the same step and the end
  at the start the constructor returns an empty series, and on it \<^verbatim>\<open>GetAt\<close> at the start
  panics on the index 0 of an empty slice.
\<close>

theorem NewTimeSeries_negative_step_panics:
  "NewTimeSeries now k t2014 (Add t2014 (10 * Second)) (- Second) vs h =
     Inl MakesliceLenOutOfRange \<and>
   NewTimeSeries now ''x'' t2014 t2014 (- Second) [] empty_heap = Inr (Inr 0, backward_series) \<and>
   GetAt 0 t2014 backward_series = Inl IndexOutOfRange"
  by (simp add: NewTimeSeries_def t2014_def Second_def empty_heap_def backward_series_def IsZero_def
      After_def Equal_def Before_def Duration_div_def Sub_def make_slice_def Add_def Let_def
      GetAt_def index_def slice_get_def NewTimeSeries_loop.simps)




text \<open>
  Claim C5. In the branch of \<^verbatim>\<open>NewTimeSeries\<close> for no value or for two or more values,
  when the call returns a series whose length \<open>n\<close> exceeds the number of values, the
  samples at the indices below \<^verbatim>\<open>len(values)\<close> are the values, in order, and every sample
  from index \<^verbatim>\<open>len(values)\<close> to \<open>n - 1\<close> is the zero value 0.0, which is not the filler
  of the series: the filler is NaN.
\<close>

theorem NewTimeSeries_zero_beyond_values:
  assumes "NewTimeSeries now k start0 end0 stp vs h = Inr (Inr p, h')"
    and "length vs \<noteq> 1" and "length vs < length (samples h' p)"
  shows "samples h' p = vs @ replicate (length (samples h' p) - length vs) 0 \<and>
    filler (objs h' ! p) = NaN \<and> (0 :: float64) \<noteq> NaN"
proof -
  from assms(2) have ne: "(length vs = 1) = False" by simp
  from NewTimeSeries_success [OF assms(1)] obtain n where
    s: "samples h' p = map (\<lambda>j. if j < length vs then vs ! j else 0) [0..<n]"
    and f: "filler (objs h' ! p) = NaN"
    unfolding ne by (simp only: if_False simp_thms) blast
  from s have n: "length (samples h' p) = n" by simp
  with assms(3) have l: "length vs < n" by simp
  have "map (\<lambda>j. if j < length vs then vs ! j else 0) [0..<n] = vs @ replicate (n - length vs) 0"
    using l by (intro nth_equalityI) (auto simp: nth_append)
  with s n f show ?thesis by (simp add: NaN_def)
qed

theorem NewTimeSeries_zero_beyond_values_witness:
  "NewTimeSeries t2014 ''x'' t2014 (t2014 + 5000000000) Second [f1, f2] empty_heap =
     Inr (Inr 0,
       \<lparr>objs = [\<lparr>key = ''x'', start = t2014, step = Second,
                  data = \<lparr>arr = 0, len = 5\<rparr>, filler = NaN\<rparr>],
        arrs = [[f1, f2, 0, 0, 0]]\<rparr>) \<and>
   samples \<lparr>objs = [\<lparr>key = ''x'', start = t2014, step = Second,
                  data = \<lparr>arr = 0, len = 5\<rparr>, filler = NaN\<rparr>],
        arrs = [[f1, f2, 0, 0, 0]]\<rparr> 0 = [f1, f2] @ replicate (5 - length [f1, f2]) 0"
proof -
  let ?h = "\<lparr>objs = [\<lparr>key = ''x'', start = t2014, step = Second,
                  data = \<lparr>arr = 0, len = 5\<rparr>, filler = NaN\<rparr>],
        arrs = [[f1, f2, 0, 0, 0]]\<rparr>"
  have e: "NewTimeSeries t2014 ''x'' t2014 (t2014 + 5000000000) Second [f1, f2] empty_heap =
     Inr (Inr 0, ?h)"
    by code_simp
  have l: "length (samples ?h 0) = 5" by (simp add: samples_def)
  have "length [f1, f2] \<noteq> 1" "length [f1, f2] < length (samples ?h 0)"
    by (simp_all add: l)
  from NewTimeSeries_zero_beyond_values [OF e this] e show ?thesis
    unfolding l by simp
qed

subsection \<open>Range extension\<close>




text \<open>
  \<^verbatim>\<open>ExtendTo\<close> in the arithmetic of the code: the number of samples it appends is the
  quotient of the saturated difference by the step.
\<close>

lemma ExtendTo_result:
  assumes "valid h p" and "0 < sint (Step p h)"
  shows "\<exists>h'. ExtendTo g p t h = Inr h' \<and> valid h' p \<and>
    samples h' p = samples h p @
      replicate (if t < End p h then 0
                 else nat (sint (Sub (t + sint (Step p h)) (End p h)) div sint (Step p h)))
        (filler (objs h ! p)) \<and>
    objs h' ! p = (objs h ! p)\<lparr>data := data (objs h' ! p)\<rparr> \<and>
    (t < End p h \<longrightarrow> h' = h)"
proof (cases "t < End p h")
  case True
  then have "ExtendTo g p t h = Inr h"
    by (simp add: ExtendTo_def Before_def)
  with True assms(1) show ?thesis by simp
next
  case False
  let ?s = "step (objs h ! p)"
  let ?D = "Sub (t + sint ?s) (End p h)"
  from assms(2) have s: "0 < sint ?s" by (simp add: Step_def)
  have "0 \<le> sint ?D"
  proof (cases "t + sint ?s - End p h < 2 ^ 63")
    case True
    with False s have "sint ?D = t + sint ?s - End p h"
      by (intro Sub_in_range) simp_all
    with False s show ?thesis by simp
  next
    case False
    then have "?D = maxDuration" by (simp add: Sub_def)
    then show ?thesis by (simp add: maxDuration_def)
  qed
  from Duration_div_pos [OF this s]
  have q: "Duration_div ?D ?s = Inr (word_of_int (sint ?D div sint ?s))"
    "sint (word_of_int (sint ?D div sint ?s) :: 64 word) = sint ?D div sint ?s"
    by simp_all
  have e: "ExtendTo g p t h = Inr (Extend_loop g p (sint ?D div sint ?s) 0 h)"
    using False by (simp add: ExtendTo_def Before_def Add_def q Let_def)
  from Extend_loop_result [OF assms(1), of g "sint ?D div sint ?s" 0] False show ?thesis
    unfolding e Step_def by simp
qed




subsection \<open>Transform\<close>

lemma Data_result:
  assumes "valid h p"
  shows "Data p h =
    Inr (\<lparr>arr = length (arrs h), len = len (data (objs h ! p))\<rparr>,
         h\<lparr>arrs := arrs h @ [samples h p]\<rparr>)"
proof -
  let ?src = "data (objs h ! p)"
  let ?n = "len ?src"
  let ?a = "arrs h ! arr ?src"
  define d where "d = \<lparr>arr = length (arrs h), len = ?n\<rparr>"
  define h1 where "h1 = h\<lparr>arrs := arrs h @ [replicate ?n 0]\<rparr>"
  from assms have v: "arr ?src < length (arrs h)" "?n \<le> length ?a"
    by (simp_all add: valid_def)
  have m: "make_slice (int ?n) h = Inr (d, h1)"
    by (simp add: make_slice_def d_def h1_def)
  have a1: "arrs h1 ! arr ?src = ?a" and b1: "arrs h1 ! arr d = replicate ?n 0"
    using v by (simp_all add: h1_def d_def nth_append)
  have "Data_loop ?src d 0 h1 =
    Inr (h1\<lparr>arrs := (arrs h1)[arr d :=
           map (\<lambda>j. if 0 \<le> j \<and> j < len ?src then arrs h1 ! arr ?src ! j else arrs h1 ! arr d ! j)
             [0..<length (arrs h1 ! arr d)]]\<rparr>)"
    using v by (intro Data_loop_result) (simp_all add: h1_def d_def)
  also have "map (\<lambda>j. if 0 \<le> j \<and> j < len ?src then arrs h1 ! arr ?src ! j else arrs h1 ! arr d ! j)
             [0..<length (arrs h1 ! arr d)] = samples h p"
    unfolding a1 b1 using v by (intro nth_equalityI) (simp_all add: samples_def)
  also have "h1\<lparr>arrs := (arrs h1)[arr d := samples h p]\<rparr> = h\<lparr>arrs := arrs h @ [samples h p]\<rparr>"
    by (simp add: h1_def d_def)
  finally have "Data_loop ?src d 0 h1 = Inr (h\<lparr>arrs := arrs h @ [samples h p]\<rparr>)" .
  with m show ?thesis
    by (simp add: Data_def d_def)
qed

lemma Copy_result:
  assumes "valid h p"
  shows "Copy p h =
    Inr (length (objs h),
         h\<lparr>objs := objs h @
              [(objs h ! p)\<lparr>data := \<lparr>arr = length (arrs h), len = len (data (objs h ! p))\<rparr>\<rparr>],
           arrs := arrs h @ [samples h p]\<rparr>)"
  by (simp add: Copy_def Data_result [OF assms])

lemma Transform_result:
  assumes "valid h p"
  shows "Transform tr p h =
    Inr (length (objs h),
         h\<lparr>objs := objs h @
              [(objs h ! p)\<lparr>key := Name tr @ ''('' @ key (objs h ! p) @ '')'',
                 data := \<lparr>arr = length (arrs h), len = len (data (objs h ! p))\<rparr>\<rparr>],
           arrs := arrs h @ [map (Apply tr) (samples h p)]\<rparr>)"
proof -
  let ?n = "len (data (objs h ! p))"
  let ?d = "\<lparr>arr = length (arrs h), len = ?n\<rparr>"
  let ?k = "Name tr @ ''('' @ key (objs h ! p) @ '')''"
  define h2 where "h2 = h\<lparr>objs := objs h @ [(objs h ! p)\<lparr>key := ?k, data := ?d\<rparr>],
    arrs := arrs h @ [samples h p]\<rparr>"
  from assms have p: "p < length (objs h)" and n: "length (samples h p) = ?n"
    by (simp_all add: valid_def length_samples)
  have a2: "arrs h2 ! arr ?d = samples h p" and d2: "data (objs h2 ! length (objs h)) = ?d"
    by (simp_all add: h2_def)
  have "Transform_loop tr ?d 0 h2 =
    Inr (h2\<lparr>arrs := (arrs h2)[arr ?d :=
           map (\<lambda>j. if 0 \<le> j \<and> j < len ?d then Apply tr (arrs h2 ! arr ?d ! j) else arrs h2 ! arr ?d ! j)
             [0..<length (arrs h2 ! arr ?d)]]\<rparr>)"
    by (intro Transform_loop_result) (simp_all add: h2_def n)
  also have "map (\<lambda>j. if 0 \<le> j \<and> j < len ?d then Apply tr (arrs h2 ! arr ?d ! j) else arrs h2 ! arr ?d ! j)
             [0..<length (arrs h2 ! arr ?d)] = map (Apply tr) (samples h p)"
    unfolding a2 by (intro nth_equalityI) (simp_all add: n)
  also have "h2\<lparr>arrs := (arrs h2)[arr ?d := map (Apply tr) (samples h p)]\<rparr> =
    h\<lparr>objs := objs h @ [(objs h ! p)\<lparr>key := ?k, data := ?d\<rparr>],
      arrs := arrs h @ [map (Apply tr) (samples h p)]\<rparr>"
    by (simp add: h2_def)
  finally have "Transform_loop tr ?d 0 h2 =
    Inr (h\<lparr>objs := objs h @ [(objs h ! p)\<lparr>key := ?k, data := ?d\<rparr>],
      arrs := arrs h @ [map (Apply tr) (samples h p)]\<rparr>)" .
  moreover have "h\<lparr>objs := objs h @ [(objs h ! p)\<lparr>data := ?d\<rparr>], arrs := arrs h @ [samples h p]\<rparr>
      \<lparr>objs := (objs h @ [(objs h ! p)\<lparr>data := ?d\<rparr>])[length (objs h) :=
         ((objs h @ [(objs h ! p)\<lparr>data := ?d\<rparr>]) ! length (objs h))
           \<lparr>key := Name tr @ ''('' @ key ((objs h @ [(objs h ! p)\<lparr>data := ?d\<rparr>]) ! p) @ '')''\<rparr>]\<rparr> = h2"
    using p by (simp add: h2_def nth_append)
  ultimately show ?thesis
    using d2 by (simp add: Transform_def Copy_result [OF assms] Let_def)
qed

text \<open>
  Claim C8. For every series \<open>s\<close> (at address \<open>p\<close>) and every transform \<open>tr\<close>,
  \<^verbatim>\<open>s.Transform(tr)\<close> returns a new series (another address, another backing array) whose
  start, step and filler are those of \<open>s\<close>, whose key is the name of the transform, an
  opening parenthesis, the key of \<open>s\<close> and a closing parenthesis, and whose samples are
  the samples of \<open>s\<close> with the transform applied to each, in order (so the lengths are
  equal); after the call the struct of \<open>s\<close> and its samples are what they were.
\<close>

theorem Transform_new_series:
  assumes "valid h p"
  shows "\<exists>q h'. Transform tr p h = Inr (q, h') \<and> q \<noteq> p \<and> valid h' q \<and> valid h' p \<and>
    arr (data (objs h' ! q)) \<noteq> arr (data (objs h' ! p)) \<and>
    Start q h' = Start p h \<and> Step q h' = Step p h \<and>
    filler (objs h' ! q) = filler (objs h ! p) \<and>
    Key q h' = Name tr @ ''('' @ Key p h @ '')'' \<and>
    samples h' q = map (Apply tr) (samples h p) \<and>
    objs h' ! p = objs h ! p \<and> samples h' p = samples h p"
proof -
  from assms have p: "p < length (objs h)" "arr (data (objs h ! p)) < length (arrs h)"
    "length (samples h p) = len (data (objs h ! p))"
    by (simp_all add: valid_def length_samples)
  then show ?thesis
    using assms unfolding Transform_result [OF assms]
    by (simp add: valid_def samples_def Start_def Step_def Key_def nth_append)
qed

theorem Transform_new_series_witness:
  "valid seconds_series 0 \<and>
   (\<exists>q h'. Transform negate 0 seconds_series = Inr (q, h') \<and> q \<noteq> 0 \<and> Key q h' = ''neg(x)'' \<and>
      samples h' q = [f1 + 2 ^ 63, f2 + 2 ^ 63, f3 + 2 ^ 63] \<and> samples h' 0 = [f1, f2, f3])"
proof -
  have v: "valid seconds_series 0" by (rule valid_seconds_series)
  have k: "Name negate @ ''('' @ Key 0 seconds_series @ '')'' = ''neg(x)''"
    by (simp add: negate_def Key_def seconds_series_def)
  have s: "samples seconds_series 0 = [f1, f2, f3]"
    by (simp add: samples_def seconds_series_def)
  have m: "map (Apply negate) [f1, f2, f3] = [f1 + 2 ^ 63, f2 + 2 ^ 63, f3 + 2 ^ 63]"
    by (simp add: negate_def)
  from Transform_new_series [OF v, of negate]
  have "\<exists>q h'. Transform negate 0 seconds_series = Inr (q, h') \<and> q \<noteq> 0 \<and> Key q h' = ''neg(x)'' \<and>
      samples h' q = [f1 + 2 ^ 63, f2 + 2 ^ 63, f3 + 2 ^ 63] \<and> samples h' 0 = [f1, f2, f3]"
    unfolding k s m by blast
  with v show ?thesis by blast
qed

subsection \<open>Iteration\<close>

text \<open>Whatever it reads, \<^verbatim>\<open>Next\<close> moves the cursor by one step and keeps the series.\<close>

lemma Next_advances:
  assumes "Next it h = Inr (r, it')"
  shows "cursor it' = Add (cursor it) (Step (series it) h) \<and> series it' = series it"
  using assms by (auto simp: Next_def Step_def split: sum.splits)

lemma GetAt_at_sample:
  assumes "valid h p" and "0 < sint (step (objs h ! p))"
    and "(int (length (samples h p)) - 1) * sint (step (objs h ! p)) < 2 ^ 63"
  shows "GetAt p (start (objs h ! p) + int j * sint (step (objs h ! p))) h =
    (if j < length (samples h p) then Inr (samples h p ! j, True) else Inr (NaN, False))"
proof -
  let ?s = "sint (step (objs h ! p))" and ?n = "length (samples h p)"
  have "(int j * ?s \<le> (int ?n - 1) * ?s) = (int j \<le> int ?n - 1)"
    using assms(2) by (rule mult_le_cancel_right_pos)
  then have r: "(int j * ?s \<le> (int ?n - 1) * ?s) = (j < ?n)" by auto
  have q: "nat (int j * ?s div ?s) = j" using assms(2) by simp
  have nn: "0 \<le> int j * ?s" using assms(2) by simp
  show ?thesis
    unfolding GetAt_no_wrap [OF assms] using r q nn by simp
qed

lemma Next_calls_from:
  assumes "valid h p" and "0 < sint (step (objs h ! p))"
    and "(int (length (samples h p)) - 1) * sint (step (objs h ! p)) < 2 ^ 63"
  shows "Next_calls k \<lparr>cursor = start (objs h ! p) + int j * sint (step (objs h ! p)), series = p\<rparr> h =
    Inr (map (\<lambda>i. if i < length (samples h p) then (samples h p ! i, True) else (NaN, False))
           [j..<j + k],
         \<lparr>cursor = start (objs h ! p) + int (j + k) * sint (step (objs h ! p)), series = p\<rparr>)"
proof (induction k arbitrary: j)
  case 0
  show ?case by simp
next
  case (Suc k)
  let ?s = "sint (step (objs h ! p))"
  let ?f = "\<lambda>i. if i < length (samples h p) then (samples h p ! i, True) else (NaN, False)"
  have n: "Next \<lparr>cursor = start (objs h ! p) + int j * ?s, series = p\<rparr> h =
    Inr (?f j, \<lparr>cursor = start (objs h ! p) + int (Suc j) * ?s, series = p\<rparr>)"
    by (simp add: Next_def GetAt_at_sample [OF assms] Add_def algebra_simps)
  have l: "[j..<j + Suc k] = j # [Suc j..<Suc j + k]"
    by (simp add: upt_conv_Cons)
  show ?case
    unfolding l by (simp add: n Suc.IH [of "Suc j"] del: upt_Suc of_nat_Suc of_nat_add)
qed

text \<open>
  Claim C9, amended. For every series of \<open>N\<close> samples with a positive step such that
  \<open>(N - 1) * step\<close> fits a \<^verbatim>\<open>Duration\<close>, the first \<open>k\<close> calls of \<^verbatim>\<open>Next()\<close> on a fresh
  iterator return, in order, for the call number \<open>i < N\<close> (counting from 0) the sample
  \<open>i\<close> with \<^verbatim>\<open>found = true\<close> and for every later call \<^verbatim>\<open>found = false\<close>; and every call,
  whether it found a sample or not, moves the cursor by one step: after \<open>k\<close> calls it
  stands at \<open>start + k * step\<close>.
\<close>

theorem Iterator_Next_calls:
  assumes "valid h p" and "0 < sint (Step p h)"
    and "(int (length (samples h p)) - 1) * sint (Step p h) < 2 ^ 63"
  shows "Next_calls k (Iterator p h) h =
    Inr (map (\<lambda>i. if i < length (samples h p) then (samples h p ! i, True) else (NaN, False))
           [0..<k],
         \<lparr>cursor = Start p h + int k * sint (Step p h), series = p\<rparr>)"
  using Next_calls_from [of h p k 0] assms by (simp add: Iterator_def Start_def Step_def)

theorem Iterator_Next_calls_witness:
  "valid seconds_series 0 \<and> 0 < sint (Step 0 seconds_series) \<and>
   (int (length (samples seconds_series 0)) - 1) * sint (Step 0 seconds_series) < 2 ^ 63 \<and>
   Next_calls 5 (Iterator 0 seconds_series) seconds_series =
     Inr ([(f1, True), (f2, True), (f3, True), (NaN, False), (NaN, False)],
          \<lparr>cursor = t2014 + 5000000000, series = 0\<rparr>)"
proof -
  have v: "valid seconds_series 0" by (rule valid_seconds_series)
  have s: "0 < sint (Step 0 seconds_series)" by (rule seconds_series_step)
  have r: "(int (length (samples seconds_series 0)) - 1) * sint (Step 0 seconds_series) < 2 ^ 63"
    by (simp add: samples_def seconds_series_def Step_def Second_def)
  have m: "map (\<lambda>i. if i < length (samples seconds_series 0)
                    then (samples seconds_series 0 ! i, True) else (NaN, False)) [0..<5] =
      [(f1, True), (f2, True), (f3, True), (NaN, False), (NaN, False)]"
    by code_simp
  have c: "Start 0 seconds_series + int 5 * sint (Step 0 seconds_series) = t2014 + 5000000000"
    by (simp add: Start_def Step_def seconds_series_def Second_def)
  from Iterator_Next_calls [OF v s r, of 5] show ?thesis
    unfolding m c using v s r by simp
qed

text \<open>
  Without the bound on the product the property fails: on the series of three samples
  with a step of \<open>2 ^ 62\<close> nanoseconds the first \<^verbatim>\<open>Next()\<close> of a fresh iterator finds
  nothing.
\<close>

theorem Iterator_Next_overflow_counterexample:
  "valid wide_series 0 \<and> 0 < sint (Step 0 wide_series) \<and> length (samples wide_series 0) = 3 \<and>
   Next_calls 1 (Iterator 0 wide_series) wide_series =
     Inr ([(NaN, False)], \<lparr>cursor = t2014 + 2 ^ 62, series = 0\<rparr>)"
  by code_simp

subsection \<open>Copy and Data\<close>

text \<open>
  Claim C10. For every series, \<^verbatim>\<open>Copy()\<close> returns a series with the key, start, step,
  filler and samples of the original, in a struct and a backing array of its own; after
  it, a \<^verbatim>\<open>SetAt\<close> on the copy leaves every \<^verbatim>\<open>GetAt\<close> of the original as it was, and a
  \<^verbatim>\<open>SetAt\<close> on the original leaves every \<^verbatim>\<open>GetAt\<close> of the copy as it was. Likewise \<^verbatim>\<open>Data()\<close> returns a slice that holds the
  samples in order, and writing an element of that slice leaves the samples and every
  \<^verbatim>\<open>GetAt\<close> of the original as they were.
\<close>

theorem Copy_Data_independent:
  assumes "valid h p"
  shows "(\<exists>q h1. Copy p h = Inr (q, h1) \<and> q \<noteq> p \<and> valid h1 q \<and> valid h1 p \<and>
      Key q h1 = Key p h \<and> Start q h1 = Start p h \<and> Step q h1 = Step p h \<and>
      filler (objs h1 ! q) = filler (objs h ! p) \<and> samples h1 q = samples h p \<and>
      objs h1 ! p = objs h ! p \<and> samples h1 p = samples h p \<and>
      arr (data (objs h1 ! q)) \<noteq> arr (data (objs h1 ! p)) \<and>
      (\<forall>t v b h2. SetAt q t v h1 = Inr (b, h2) \<longrightarrow> (\<forall>u. GetAt p u h2 = GetAt p u h1)) \<and>
      (\<forall>t v b h2. SetAt p t v h1 = Inr (b, h2) \<longrightarrow> (\<forall>u. GetAt q u h2 = GetAt q u h1))) \<and>
    (\<exists>d h1. Data p h = Inr (d, h1) \<and> take (len d) (arrs h1 ! arr d) = samples h p \<and>
      objs h1 = objs h \<and> samples h1 p = samples h p \<and>
      (\<forall>i v h2. slice_set d i v h1 = Inr h2 \<longrightarrow>
         samples h2 p = samples h p \<and> (\<forall>u. GetAt p u h2 = GetAt p u h1)))"
proof (intro conjI)
  let ?d = "\<lparr>arr = length (arrs h), len = len (data (objs h ! p))\<rparr>"
  define h1 where "h1 = h\<lparr>objs := objs h @ [(objs h ! p)\<lparr>data := ?d\<rparr>],
    arrs := arrs h @ [samples h p]\<rparr>"
  define q where "q = length (objs h)"
  from assms have p: "p < length (objs h)" "arr (data (objs h ! p)) < length (arrs h)"
    "length (samples h p) = len (data (objs h ! p))"
    by (simp_all add: valid_def length_samples)
  have c: "Copy p h = Inr (q, h1)"
    by (simp add: Copy_result [OF assms] h1_def q_def)
  have o: "objs h1 ! p = objs h ! p" "objs h1 ! q = (objs h ! p)\<lparr>data := ?d\<rparr>"
    using p by (simp_all add: h1_def q_def nth_append)
  have a: "arr (data (objs h1 ! q)) \<noteq> arr (data (objs h1 ! p))"
    using p by (simp add: o)
  have basic: "q \<noteq> p \<and> valid h1 q \<and> valid h1 p \<and>
      Key q h1 = Key p h \<and> Start q h1 = Start p h \<and> Step q h1 = Step p h \<and>
      filler (objs h1 ! q) = filler (objs h ! p) \<and> samples h1 q = samples h p \<and>
      objs h1 ! p = objs h ! p \<and> samples h1 p = samples h p \<and>
      arr (data (objs h1 ! q)) \<noteq> arr (data (objs h1 ! p))"
    using p assms a
    by (simp add: valid_def Key_def Start_def Step_def o)
      (simp add: h1_def q_def nth_append samples_def)
  have "GetAt p u h2 = GetAt p u h1" if "SetAt q t v h1 = Inr (b, h2)" for t v b h2 u
    using SetAt_frame [OF that] a by (intro GetAt_frame) simp_all
  moreover have "GetAt q u h2 = GetAt q u h1" if "SetAt p t v h1 = Inr (b, h2)" for t v b h2 u
    using SetAt_frame [OF that] a by (intro GetAt_frame) simp_all
  ultimately show "\<exists>q h1. Copy p h = Inr (q, h1) \<and> q \<noteq> p \<and> valid h1 q \<and> valid h1 p \<and>
      Key q h1 = Key p h \<and> Start q h1 = Start p h \<and> Step q h1 = Step p h \<and>
      filler (objs h1 ! q) = filler (objs h ! p) \<and> samples h1 q = samples h p \<and>
      objs h1 ! p = objs h ! p \<and> samples h1 p = samples h p \<and>
      arr (data (objs h1 ! q)) \<noteq> arr (data (objs h1 ! p)) \<and>
      (\<forall>t v b h2. SetAt q t v h1 = Inr (b, h2) \<longrightarrow> (\<forall>u. GetAt p u h2 = GetAt p u h1)) \<and>
      (\<forall>t v b h2. SetAt p t v h1 = Inr (b, h2) \<longrightarrow> (\<forall>u. GetAt q u h2 = GetAt q u h1))"
    using c basic by blast
next
  let ?d = "\<lparr>arr = length (arrs h), len = len (data (objs h ! p))\<rparr>"
  define h1 where "h1 = h\<lparr>arrs := arrs h @ [samples h p]\<rparr>"
  from assms have p: "p < length (objs h)" "arr (data (objs h ! p)) < length (arrs h)"
    "length (samples h p) = len (data (objs h ! p))"
    by (simp_all add: valid_def length_samples)
  have d: "Data p h = Inr (?d, h1)"
    by (simp add: Data_result [OF assms] h1_def)
  have basic: "take (len ?d) (arrs h1 ! arr ?d) = samples h p \<and> objs h1 = objs h \<and>
      samples h1 p = samples h p"
    using p by (simp add: h1_def samples_def nth_append)
  have "samples h2 p = samples h p \<and> GetAt p u h2 = GetAt p u h1"
    if "slice_set ?d i v h1 = Inr h2" for i v h2 u
  proof -
    from slice_set_frame [OF that] p
    have f: "objs h2 = objs h1" "arrs h2 ! arr (data (objs h1 ! p)) = arrs h1 ! arr (data (objs h1 ! p))"
      by (simp_all add: h1_def)
    then have "samples h2 p = samples h1 p"
      by (simp add: samples_def)
    moreover from f have "GetAt p u h2 = GetAt p u h1"
      by (intro GetAt_frame) simp_all
    ultimately show ?thesis using basic by simp
  qed
  then show "\<exists>d h1. Data p h = Inr (d, h1) \<and> take (len d) (arrs h1 ! arr d) = samples h p \<and>
      objs h1 = objs h \<and> samples h1 p = samples h p \<and>
      (\<forall>i v h2. slice_set d i v h1 = Inr h2 \<longrightarrow>
         samples h2 p = samples h p \<and> (\<forall>u. GetAt p u h2 = GetAt p u h1))"
    using d basic by blast
qed

theorem Copy_Data_independent_witness:
  "valid seconds_series 0 \<and>
   (\<exists>q h1 h2. Copy 0 seconds_series = Inr (q, h1) \<and> samples h1 q = [f1, f2, f3] \<and>
      SetAt q t2014 f7 h1 = Inr (True, h2) \<and> GetAt q t2014 h2 = Inr (f7, True) \<and>
      GetAt 0 t2014 h2 = Inr (f1, True))"
proof -
  let ?ts = "\<lparr>key = ''x'', start = t2014, step = Second, data = \<lparr>arr = 0, len = 3\<rparr>, filler = NaN\<rparr>"
  let ?h1 = "\<lparr>objs = [?ts, ?ts\<lparr>data := \<lparr>arr = 1, len = 3\<rparr>\<rparr>], arrs = [[f1, f2, f3], [f1, f2, f3]]\<rparr>"
  let ?h2 = "\<lparr>objs = [?ts, ?ts\<lparr>data := \<lparr>arr = 1, len = 3\<rparr>\<rparr>], arrs = [[f1, f2, f3], [f7, f2, f3]]\<rparr>"
  have v: "valid seconds_series 0" by (rule valid_seconds_series)
  have c: "Copy 0 seconds_series = Inr (1, ?h1)"
    by (subst Copy_result [OF v]) (simp add: seconds_series_def samples_def)
  have s: "SetAt 1 t2014 f7 ?h1 = Inr (True, ?h2)"
    by (simp add: SetAt_def index_def slice_set_def Before_def After_def Add_def Sub_def
        Duration_div_def t2014_def Second_def)
  have g1: "GetAt 1 t2014 ?h2 = Inr (f7, True)"
    by (simp add: GetAt_def index_def slice_get_def Before_def After_def Add_def Sub_def
        Duration_div_def t2014_def Second_def)
  have g0: "GetAt 0 t2014 ?h1 = Inr (f1, True)"
    by (simp add: GetAt_def index_def slice_get_def Before_def After_def Add_def Sub_def
        Duration_div_def t2014_def Second_def)
  from Copy_Data_independent [OF v] obtain q h1 where
    "Copy 0 seconds_series = Inr (q, h1)"
    "\<forall>t v b h2. SetAt q t v h1 = Inr (b, h2) \<longrightarrow> (\<forall>u. GetAt 0 u h2 = GetAt 0 u h1)"
    by blast
  with c have "\<forall>t v b h2. SetAt 1 t v ?h1 = Inr (b, h2) \<longrightarrow> (\<forall>u. GetAt 0 u h2 = GetAt 0 u ?h1)"
    by simp
  with s have "GetAt 0 t2014 ?h2 = GetAt 0 t2014 ?h1" by blast
  with g0 have "GetAt 0 t2014 ?h2 = Inr (f1, True)" by simp
  moreover have "samples ?h1 1 = [f1, f2, f3]" by (simp add: samples_def)
  ultimately show ?thesis using v c s g1 by blast
qed

subsection \<open>Totality with a positive step\<close>

text \<open>
  With a positive step no operation on a series panics, whatever the instants, durations
  and values it is given.
\<close>

lemma operations_total_pos_step:
  assumes "valid h p" and "0 < sint (Step p h)"
  shows "(\<exists>r. GetAt p t h = Inr r) \<and> (\<exists>r. SetAt p t v h = Inr r) \<and>
    (\<exists>h'. ExtendBy g p d h = Inr h') \<and> (\<exists>h'. ExtendTo g p t h = Inr h') \<and>
    (\<exists>r. Data p h = Inr r) \<and> (\<exists>r. Copy p h = Inr r) \<and> (\<exists>r. Transform tr p h = Inr r) \<and>
    (\<exists>r. Next \<lparr>cursor = c, series = p\<rparr> h = Inr r) \<and>
    (\<exists>r. Last \<lparr>cursor = c, series = p\<rparr> h = Inr r)"
proof -
  from assms(2) have s: "0 < sint (step (objs h ! p))" by (simp add: Step_def)
  have g: "\<exists>r. GetAt p u h = Inr r" for u
    by (cases "GetAt p u h") (simp_all add: GetAt_pos_step [OF assms(1) s] split: if_splits)
  have "\<exists>r. SetAt p t v h = Inr r"
    using SetAt_pos_step [OF assms(1) s, of t v] by auto
  moreover have "\<exists>h'. ExtendBy g p d h = Inr h'"
    using Duration_div_pos_step [OF s, of d] by (auto simp: ExtendBy_def)
  moreover have "\<exists>h'. ExtendTo g p t h = Inr h'"
    using ExtendTo_result [OF assms, of g t] by blast
  moreover have "\<exists>r. Data p h = Inr r" "\<exists>r. Copy p h = Inr r" "\<exists>r. Transform tr p h = Inr r"
    by (simp_all add: Data_result [OF assms(1)] Copy_result [OF assms(1)]
        Transform_result [OF assms(1)])
  moreover have "\<exists>r. Next \<lparr>cursor = c, series = p\<rparr> h = Inr r"
    using g [of c] by (auto simp: Next_def)
  moreover have "\<exists>r. Last \<lparr>cursor = c, series = p\<rparr> h = Inr r"
    using g [of "Add (End p h) (- step (objs h ! p))"] by (auto simp: Last_def Let_def)
  ultimately show ?thesis using g [of t] by blast
qed

subsection \<open>Validity is an invariant\<close>

text \<open>
  The constructor returns a valid series, and every operation keeps every valid series
  valid: the hypothesis \<open>valid h p\<close> of the properties above holds of every series a
  program can reach.
\<close>

lemma valid_NewTimeSeries:
  assumes "NewTimeSeries now k start0 end0 stp vs h = Inr (Inr p, h')"
  shows "valid h' p" and "valid h r \<Longrightarrow> valid h' r"
proof -
  from NewTimeSeries_success [OF assms] show "valid h' p" by blast
  from NewTimeSeries_shape [of start0 now vs end0 stp k h]
  obtain st fill en q where
    e: "NewTimeSeries now k start0 end0 stp vs h =
       (if stp = 0 then Inr (Inl StepZero, h)
        else if en < st then Inr (Inl (StartAfterEnd st en), h)
        else if q < 0 then Inl MakesliceLenOutOfRange
        else Inr (Inr (length (objs h)),
            h\<lparr>objs := objs h @
                 [\<lparr>key = k, start = st, step = stp,
                   data = \<lparr>arr = length (arrs h), len = nat q\<rparr>, filler = fill\<rparr>],
              arrs := arrs h @
                 [map (\<lambda>j. if length vs = 1 \<or> j < length vs
                           then (if length vs = 1 then fill else vs ! j) else 0)
                    [0..<nat q]]\<rparr>))"
    by blast
  from assms have "objs h' = objs h @
                 [\<lparr>key = k, start = st, step = stp,
                   data = \<lparr>arr = length (arrs h), len = nat q\<rparr>, filler = fill\<rparr>]"
    and "arrs h' = arrs h @
                 [map (\<lambda>j. if length vs = 1 \<or> j < length vs
                           then (if length vs = 1 then fill else vs ! j) else 0)
                    [0..<nat q]]"
    unfolding e by (auto split: if_splits)
  then show "valid h r \<Longrightarrow> valid h' r"
    by (simp add: valid_def nth_append)
qed

lemma length_nested_update:
  "a < length xs \<Longrightarrow> length (xs[i := (xs ! i)[k := v]] ! a) = length (xs ! a)"
  by (cases "i = a") simp_all

lemma valid_SetAt:
  assumes "SetAt p t v h = Inr (b, h')" and "valid h r"
  shows "valid h' r"
proof -
  from SetAt_frame(1,2) [OF assms(1)] have o: "objs h' = objs h" "length (arrs h') = length (arrs h)" .
  have "length (arrs h' ! a) = length (arrs h ! a)" if "a < length (arrs h)" for a
    using assms(1) that
    by (auto simp: SetAt_def slice_set_def length_nested_update split: sum.splits if_splits)
  with assms(2) o show ?thesis
    by (simp add: valid_def)
qed

lemma valid_append_data:
  assumes "valid h p" and "valid h r"
  shows "valid (append_data g p xs h) r"
proof (cases "r = p")
  case True
  with append_data_result [OF assms(1), of g xs] show ?thesis by simp
next
  case False
  let ?s = "data (objs h ! p)"
  let ?a = "arrs h ! arr ?s"
  let ?n = "len ?s + length xs"
  from assms have v: "p < length (objs h)" "arr ?s < length (arrs h)" "len ?s \<le> length ?a"
    "r < length (objs h)" "arr (data (objs h ! r)) < length (arrs h)"
    "len (data (objs h ! r)) \<le> length (arrs h ! arr (data (objs h ! r)))"
    by (simp_all add: valid_def)
  show ?thesis
  proof (cases "?n \<le> length ?a")
    case True
    then have e: "append_data g p xs h =
      h\<lparr>arrs := (arrs h)[arr ?s := take (len ?s) ?a @ xs @ drop ?n ?a],
        objs := (objs h)[p := (objs h ! p)\<lparr>data := \<lparr>arr = arr ?s, len = ?n\<rparr>\<rparr>]\<rparr>"
      by (simp add: append_data_def append_slice_def Let_def)
    show ?thesis
      using v True False unfolding e by (auto simp: valid_def nth_list_update)
  next
    case n: False
    then have e: "append_data g p xs h =
      h\<lparr>arrs := arrs h @ [take (len ?s) ?a @ xs @ replicate (g (length ?a) ?n) 0],
        objs := (objs h)[p := (objs h ! p)\<lparr>data := \<lparr>arr = length (arrs h), len = ?n\<rparr>\<rparr>]\<rparr>"
      by (simp add: append_data_def append_slice_def Let_def)
    show ?thesis
      using v n False unfolding e by (simp add: valid_def nth_append)
  qed
qed

lemma valid_Extend_loop:
  assumes "valid h p" and "valid h r"
  shows "valid (Extend_loop g p points i h) r"
  using assms
proof (induction g p points i h rule: Extend_loop.induct)
  case (1 g p points i h)
  show ?case
  proof (cases "i < points")
    case False
    with "1.prems" show ?thesis by (subst Extend_loop.simps) simp
  next
    case True
    from "1.prems" have "valid (append_data g p [filler (objs h ! p)] h) p"
      "valid (append_data g p [filler (objs h ! p)] h) r"
      by (simp_all add: valid_append_data)
    from "1.IH" [OF True this] True show ?thesis
      by (subst Extend_loop.simps) simp
  qed
qed

lemma valid_Copy_Transform:
  assumes "valid h p" and "valid h r"
  shows "\<exists>q h'. Copy p h = Inr (q, h') \<and> valid h' q \<and> valid h' r"
    and "\<exists>q h'. Transform tr p h = Inr (q, h') \<and> valid h' q \<and> valid h' r"
  using assms
  unfolding Copy_result [OF assms(1)] Transform_result [OF assms(1)]
  by (simp_all add: valid_def nth_append length_samples)

end
